theory Spec2Isabelle
  imports Main "HOL-Library.AList"
begin

section \<open>Python strings and integers\<close>

text \<open>
  A Python \<open>str\<close> is modelled as a \<open>string\<close>; a \<open>char\<close> stands for one code point
  below 256. Text with code points from 256 on (further Unicode blanks and decimal
  digits) is outside the model. The interpreter's optional limit on the number of digits
  that \<open>int\<close> converts is not modelled either; none of the general theorems below
  depends on which digit strings \<open>int\<close> accepts.
\<close>

abbreviation TAB :: char where "TAB \<equiv> CHR 0x09"
abbreviation NL :: char where "NL \<equiv> CHR 0x0A"

text \<open>\<open>s.split(sep)\<close> for a one-character separator: never empty, \<open>''.split(sep) == ['']\<close>.
  The second case alternative is unreachable and only makes the function total.\<close>

fun split_on :: "char \<Rightarrow> string \<Rightarrow> string list" where
  "split_on sep [] = [[]]"
| "split_on sep (c # cs) =
     (if c = sep then [] # split_on sep cs
      else (case split_on sep cs of f # fs \<Rightarrow> (c # f) # fs | [] \<Rightarrow> [[c]]))"

text \<open>The code points below 256 for which \<open>str.isspace\<close> holds: what \<open>str.strip()\<close> removes.\<close>

definition is_space :: "char \<Rightarrow> bool" where
  "is_space c = (c \<in> set [CHR 0x09, CHR 0x0A, CHR 0x0B, CHR 0x0C, CHR 0x0D,
                            CHR 0x1C, CHR 0x1D, CHR 0x1E, CHR 0x1F, CHR 0x20,
                            CHR 0x85, CHR 0xA0])"

definition strip :: "string \<Rightarrow> string" where
  "strip s = rev (dropWhile is_space (rev (dropWhile is_space s)))"

text \<open>\<open>int(s)\<close> skips blanks at both ends, but a narrower set of them than \<open>strip\<close>: the
  separators 0x1C to 0x1F are not accepted.\<close>

definition is_int_space :: "char \<Rightarrow> bool" where
  "is_int_space c = (c \<in> set [CHR 0x09, CHR 0x0A, CHR 0x0B, CHR 0x0C, CHR 0x0D, CHR 0x20,
                                CHR 0x85, CHR 0xA0])"

definition is_digit :: "char \<Rightarrow> bool" where
  "is_digit c = (c \<in> set ''0123456789'')"

definition digit_val :: "char \<Rightarrow> int" where
  "digit_val c = int (of_char c) - 48"

text \<open>The digits after the first one; an underscore is accepted only between two digits.\<close>

fun parse_digits :: "int \<Rightarrow> string \<Rightarrow> int option" where
  "parse_digits acc [] = Some acc"
| "parse_digits acc [c] = (if is_digit c then Some (acc * 10 + digit_val c) else None)"
| "parse_digits acc (c # d # ds) =
     (if is_digit c then parse_digits (acc * 10 + digit_val c) (d # ds)
      else if c = CHR ''_'' \<and> is_digit d then parse_digits (acc * 10 + digit_val d) ds
      else None)"

definition parse_unsigned :: "string \<Rightarrow> int option" where
  "parse_unsigned s =
     (case s of [] \<Rightarrow> None
      | c # cs \<Rightarrow> if is_digit c then parse_digits (digit_val c) cs else None)"

text \<open>\<open>int(s)\<close> in base 10; \<open>None\<close> stands for the \<open>ValueError\<close>.\<close>

definition py_int :: "string \<Rightarrow> int option" where
  "py_int s =
     (let t = rev (dropWhile is_int_space (rev (dropWhile is_int_space s)))
      in case t of
           [] \<Rightarrow> None
         | c # cs \<Rightarrow>
             if c = CHR ''-'' then map_option uminus (parse_unsigned cs)
             else if c = CHR ''+'' then parse_unsigned cs
             else parse_unsigned t)"

text \<open>\<open>str(n)\<close> of a number, and of a list of numbers as an f-string prints it.\<close>

fun show_nat :: "nat \<Rightarrow> string" where
  "show_nat n =
     (if n < 10 then [''0123456789'' ! n]
      else show_nat (n div 10) @ [''0123456789'' ! (n mod 10)])"

declare show_nat.simps [simp del]

definition show_int :: "int \<Rightarrow> string" where
  "show_int i = (if i < 0 then CHR ''-'' # show_nat (nat (- i)) else show_nat (nat i))"

fun join :: "string \<Rightarrow> string list \<Rightarrow> string" where
  "join sep [] = []"
| "join sep [x] = x"
| "join sep (x # y # ys) = x @ sep @ join sep (y # ys)"

definition show_int_list :: "int list \<Rightarrow> string" where
  "show_int_list xs = ''['' @ join '', '' (map show_int xs) @ '']''"

section \<open>The validator\<close>

text \<open>The dictionary built for each structural line. The keys \<open>id\<close> and \<open>lemma\<close> are
  renamed: the first is a constant of HOL, the second a keyword.\<close>

record token =
  id_field :: int
  form :: string
  lemma_field :: string
  upos :: string
  head :: int
  deprel :: string
  line_num :: nat

record CoNLLUValidator =
  errors :: "string list"

definition init_validator :: CoNLLUValidator where
  "init_validator = \<lparr>errors = []\<rparr>"

text \<open>What the parsing loop of \<open>validate_sentence\<close> updates: \<open>self.errors\<close> and the locals
  \<open>tokens\<close>, \<open>roots\<close> and \<open>token_ids\<close>.\<close>

record parse_state =
  self_errors :: "string list"
  tokens :: "token list"
  roots :: "int list"
  token_ids :: "int set"

definition parse_start :: parse_state where
  "parse_start = \<lparr>self_errors = [], tokens = [], roots = [], token_ids = {}\<rparr>"

text \<open>One pass of the loop body. The outer handler \<open>except Exception\<close> has nothing to
  catch when the line is a \<open>str\<close>, so it has no branch here.\<close>

definition parse_line :: "nat \<Rightarrow> string \<Rightarrow> parse_state \<Rightarrow> parse_state" where
  "parse_line n line st =
     (let fields = split_on TAB line in
      if length fields \<noteq> 10 then
        st\<lparr>self_errors := self_errors st @
             [''Line '' @ show_nat n @ '': Expected 10 fields, got '' @ show_nat (length fields)]\<rparr>
      else
        let token_id = fields ! 0; hd_field = fields ! 6 in
        if CHR ''-'' \<in> set token_id \<or> CHR ''.'' \<in> set token_id then st
        else
          case py_int token_id of
            None \<Rightarrow> st\<lparr>self_errors := self_errors st @
                [''Line '' @ show_nat n @ '': Invalid token ID or head: '' @ token_id @ '', '' @ hd_field]\<rparr>
          | Some token_id_int \<Rightarrow>
              (case py_int hd_field of
                 None \<Rightarrow> st\<lparr>self_errors := self_errors st @
                   [''Line '' @ show_nat n @ '': Invalid token ID or head: '' @ token_id @ '', '' @ hd_field]\<rparr>
               | Some head_int \<Rightarrow>
                   st\<lparr>token_ids := insert token_id_int (token_ids st),
                      roots := (if head_int = 0 then roots st @ [token_id_int] else roots st),
                      tokens := tokens st @
                        [\<lparr>id_field = token_id_int, form = fields ! 1, lemma_field = fields ! 2,
                          upos = fields ! 3, head = head_int, deprel = fields ! 7,
                          line_num = n\<rparr>]\<rparr>))"

text \<open>The loop \<open>for line_num, line in enumerate(sentence_lines, 1)\<close>, from line number \<open>n\<close>.\<close>

fun parse_lines :: "nat \<Rightarrow> string list \<Rightarrow> parse_state \<Rightarrow> parse_state" where
  "parse_lines n [] st = st"
| "parse_lines n (line # rest) st = parse_lines (Suc n) rest (parse_line n line st)"

text \<open>The whole loop: the locals start empty, \<open>self.errors\<close> was emptied on entry.\<close>

definition parse_sentence :: "string list \<Rightarrow> parse_state" where
  "parse_sentence sentence_lines = parse_lines 1 sentence_lines parse_start"

subsection \<open>Cycle detection\<close>

text \<open>The dictionary \<open>{t['id']: t['head'] for t in tokens}\<close>: a later token with the same
  id replaces the head stored by an earlier one.\<close>

definition token_heads :: "token list \<Rightarrow> (int \<times> int) list" where
  "token_heads ts = fold (\<lambda>t d. AList.update (id_field t) (head t) d) ts []"

text \<open>The \<open>while\<close> loop from one start token; \<open>False\<close> is the early \<open>return False\<close>.\<close>

function chain_walk :: "(int \<times> int) list \<Rightarrow> int set \<Rightarrow> int \<Rightarrow> bool" where
  "chain_walk th visited current =
     (if current \<noteq> 0 then
        (case map_of th current of
           None \<Rightarrow> True
         | Some h \<Rightarrow>
             if current \<in> visited then False
             else chain_walk th (insert current visited) h)
      else True)"
  by pat_completeness auto
termination
proof (relation "measure (\<lambda>(th, visited, current). card (fst ` set th - visited))")
  show "wf (measure (\<lambda>(th, visited, current). card (fst ` set th - visited)))"
    by simp
next
  fix th :: "(int \<times> int) list" and visited :: "int set" and current h :: int
  assume "map_of th current = Some h" and "current \<notin> visited"
  then have "current \<in> fst ` set th - visited"
    by (auto dest: map_of_SomeD intro: rev_image_eqI)
  then have "card (fst ` set th - insert current visited) < card (fst ` set th - visited)"
    by (intro psubset_card_mono) auto
  then show "((th, insert current visited, h), (th, visited, current))
      \<in> measure (\<lambda>(th, visited, current). card (fst ` set th - visited))"
    by simp
qed

declare chain_walk.simps [simp del]

text \<open>The loop \<open>for start_token in tokens\<close>.\<close>

fun check_starts :: "(int \<times> int) list \<Rightarrow> token list \<Rightarrow> bool" where
  "check_starts th [] = True"
| "check_starts th (start_token # rest) =
     (if chain_walk th {} (id_field start_token) then check_starts th rest else False)"

definition check_no_cycles :: "token list \<Rightarrow> bool" where
  "check_no_cycles ts = check_starts (token_heads ts) ts"

subsection \<open>The four checks and the verdict\<close>

definition root_errors :: "int list \<Rightarrow> string list" where
  "root_errors rs =
     (if length rs = 0 then [''No root found (no token with head=0)'']
      else if length rs > 1 then
        [''Multiple roots found: tokens '' @ show_int_list rs @ '' all have head=0'']
      else [])"

definition invalid_head_error :: "token \<Rightarrow> string" where
  "invalid_head_error t =
     ''Token '' @ show_int (id_field t) @ '' has invalid head '' @ show_int (head t)"

definition head_errors :: "token list \<Rightarrow> int set \<Rightarrow> string list" where
  "head_errors ts ids =
     concat (map (\<lambda>t. if head t \<noteq> 0 \<and> head t \<notin> ids then [invalid_head_error t] else []) ts)"

definition cycle_errors :: "token list \<Rightarrow> string list" where
  "cycle_errors ts = (if \<not> check_no_cycles ts then [''Dependency cycle detected''] else [])"

definition token_field_errors :: "token \<Rightarrow> string list" where
  "token_field_errors t =
     (if form t = [] \<or> form t = ''_''
        then [''Token '' @ show_int (id_field t) @ '': Empty or missing form''] else []) @
     (if upos t = [] \<or> upos t = ''_''
        then [''Token '' @ show_int (id_field t) @ '': Empty or missing UPOS''] else []) @
     (if deprel t = [] \<or> deprel t = ''_''
        then [''Token '' @ show_int (id_field t) @ '': Empty or missing deprel''] else [])"

definition field_errors :: "token list \<Rightarrow> string list" where
  "field_errors ts = concat (map token_field_errors ts)"

text \<open>Everything \<open>validate_sentence\<close> appends to \<open>self.errors\<close> after the parsing loop.\<close>

definition check_errors :: "parse_state \<Rightarrow> string list" where
  "check_errors st =
     self_errors st @ root_errors (roots st) @ head_errors (tokens st) (token_ids st) @
     cycle_errors (tokens st) @ field_errors (tokens st)"

text \<open>\<open>validate_sentence\<close> returns the verdict and the validator it leaves behind. The
  argument \<open>sent_id\<close> is accepted and never read, as in the source.\<close>

definition validate_sentence ::
    "CoNLLUValidator \<Rightarrow> string list \<Rightarrow> string option \<Rightarrow> bool \<times> CoNLLUValidator" where
  "validate_sentence self sentence_lines sent_id =
     (if sentence_lines = [] then (False, self\<lparr>errors := [''Empty sentence'']\<rparr>)
      else
        let errs = check_errors (parse_sentence sentence_lines)
        in (length errs = 0, self\<lparr>errors := errs\<rparr>))"

definition get_errors :: "CoNLLUValidator \<Rightarrow> string list" where
  "get_errors self = errors self"

text \<open>The structural tokens of a sentence: the list \<open>tokens\<close> once the loop has ended.\<close>

definition structural_tokens :: "string list \<Rightarrow> token list" where
  "structural_tokens sentence_lines = tokens (parse_sentence sentence_lines)"

section \<open>The streaming driver\<close>

text \<open>The input file is the text that the file object yields, the output file the text
  written to it; what \<open>print\<close> emits is kept as a list of lines. Failures of the streams
  themselves are outside the model.\<close>

text \<open>Iterating over a text file: every line keeps its terminator, the last line may have
  none.\<close>

fun readlines :: "string \<Rightarrow> string list" where
  "readlines [] = []"
| "readlines (c # cs) =
     (if c = NL then [c] # readlines cs
      else (case readlines cs of [] \<Rightarrow> [[c]] | l # ls \<Rightarrow> (c # l) # ls))"

definition rstrip_nl :: "string \<Rightarrow> string" where
  "rstrip_nl s = rev (dropWhile (\<lambda>c. c = NL) (rev s))"

definition startswith :: "string \<Rightarrow> string \<Rightarrow> bool" where
  "startswith s p = (take (length p) s = p)"

record cleaner_state =
  valid_sentences :: nat
  invalid_sentences :: nat
  total_sentences :: nat
  current_sentence :: "string list"
  current_comments :: "string list"
  sent_id :: "string option"
  outfile :: string
  printed :: "string list"
  validator :: CoNLLUValidator

definition init_state :: cleaner_state where
  "init_state =
     \<lparr>valid_sentences = 0, invalid_sentences = 0, total_sentences = 0,
      current_sentence = [], current_comments = [], sent_id = None,
      outfile = [], printed = [], validator = init_validator\<rparr>"

text \<open>What the three writes of a passing sentence append to the output.\<close>

definition sentence_text :: "string list \<Rightarrow> string list \<Rightarrow> string" where
  "sentence_text comments sentence =
     concat (map (\<lambda>comment. comment @ [NL]) comments) @
     concat (map (\<lambda>token_line. token_line @ [NL]) sentence) @ [NL]"

definition show_sent_id :: "string option \<Rightarrow> string" where
  "show_sent_id sid = (case sid of None \<Rightarrow> ''None'' | Some s \<Rightarrow> s)"

text \<open>The block that the source has twice, at a blank line and after the loop: count the
  sentence, validate it, write it or count it as removed. The two copies differ in the
  text \<open>place\<close> of the verbose message only.\<close>

definition emit_or_drop :: "bool \<Rightarrow> string \<Rightarrow> cleaner_state \<Rightarrow> cleaner_state" where
  "emit_or_drop verbose place st =
     (let st1 = st\<lparr>total_sentences := total_sentences st + 1\<rparr>;
          r = validate_sentence (validator st1) (current_sentence st1) (sent_id st1);
          st2 = st1\<lparr>validator := snd r\<rparr>
      in if fst r then
           st2\<lparr>outfile := outfile st2 @ sentence_text (current_comments st2) (current_sentence st2),
               valid_sentences := valid_sentences st2 + 1\<rparr>
         else
           let st3 = st2\<lparr>invalid_sentences := invalid_sentences st2 + 1\<rparr>
           in if verbose then
                st3\<lparr>printed := printed st3 @
                  [''Removed sentence '' @ show_sent_id (sent_id st3) @ place @ '': '' @
                   join ''; '' (get_errors (validator st3))]\<rparr>
              else st3)"

text \<open>The loop body for the line \<open>raw\<close> with number \<open>n\<close>.\<close>

definition process_line :: "bool \<Rightarrow> nat \<Rightarrow> string \<Rightarrow> cleaner_state \<Rightarrow> cleaner_state" where
  "process_line verbose n raw st =
     (let line = rstrip_nl raw in
      if startswith line ''#'' then
        let st1 = st\<lparr>current_comments := current_comments st @ [line]\<rparr>
        in if startswith line ''# sent_id'' then
             st1\<lparr>sent_id := Some (if CHR ''='' \<in> set line
                                   then strip (drop 1 (dropWhile (\<lambda>c. c \<noteq> CHR ''='') line))
                                   else show_nat (total_sentences st1 + 1))\<rparr>
           else st1
      else if strip line = [] then
        (if current_sentence st \<noteq> [] then
           (emit_or_drop verbose ('' (line ~'' @ show_nat n @ '')'') st)
             \<lparr>current_sentence := [], current_comments := [], sent_id := None\<rparr>
         else st)
      else st\<lparr>current_sentence := current_sentence st @ [line]\<rparr>)"

fun process_lines :: "bool \<Rightarrow> nat \<Rightarrow> string list \<Rightarrow> cleaner_state \<Rightarrow> cleaner_state" where
  "process_lines verbose n [] st = st"
| "process_lines verbose n (raw # rest) st =
     process_lines verbose (Suc n) rest (process_line verbose n raw st)"

text \<open>The last sentence, when the file does not end with an empty line.\<close>

definition last_sentence :: "bool \<Rightarrow> cleaner_state \<Rightarrow> cleaner_state" where
  "last_sentence verbose st =
     (if current_sentence st \<noteq> [] then emit_or_drop verbose [] st else st)"

text \<open>The body of the \<open>with\<close> statement.\<close>

definition process_stream :: "bool \<Rightarrow> string \<Rightarrow> cleaner_state" where
  "process_stream verbose input =
     last_sentence verbose (process_lines verbose 1 (readlines input) init_state)"

subsection \<open>The summary\<close>

text \<open>Floating point arithmetic is not modelled: the quotient of two integers, the product
  with 100 and the format \<open>.1f\<close> are parameters. The division by zero is: it raises.\<close>

datatype py_error = ZeroDivisionError

record 'f float_ops =
  true_div :: "nat \<Rightarrow> nat \<Rightarrow> 'f"
  times_int :: "'f \<Rightarrow> nat \<Rightarrow> 'f"
  format_1f :: "'f \<Rightarrow> string"

definition py_truediv :: "'f float_ops \<Rightarrow> nat \<Rightarrow> nat \<Rightarrow> py_error + 'f" where
  "py_truediv fl a b = (if b = 0 then Inl ZeroDivisionError else Inr (true_div fl a b))"

text \<open>The argument of the last \<open>print\<close>: a conditional expression, whose condition is
  evaluated first and whose branches are evaluated only when chosen.\<close>

definition success_rate_line :: "'f float_ops \<Rightarrow> nat \<Rightarrow> nat \<Rightarrow> py_error + string" where
  "success_rate_line fl n_valid n_total =
     (if n_total > 0 then
        (case py_truediv fl n_valid n_total of
           Inl e \<Rightarrow> Inl e
         | Inr q \<Rightarrow> Inr (''  Success rate: '' @ format_1f fl (times_int fl q 100) @ ''%''))
      else Inr ''  Success rate: 0%'')"

definition clean_conllu_file ::
    "'f float_ops \<Rightarrow> string \<Rightarrow> bool \<Rightarrow> py_error + cleaner_state" where
  "clean_conllu_file fl input verbose =
     (let st = process_stream verbose input;
          st1 = st\<lparr>printed := printed st @
                  [''Processing complete:'',
                   ''  Total sentences: '' @ show_nat (total_sentences st),
                   ''  Valid sentences: '' @ show_nat (valid_sentences st),
                   ''  Invalid sentences removed: '' @ show_nat (invalid_sentences st)]\<rparr>
      in case success_rate_line fl (valid_sentences st1) (total_sentences st1) of
           Inl e \<Rightarrow> Inl e
         | Inr l \<Rightarrow> Inr (st1\<lparr>printed := printed st1 @ [l]\<rparr>))"

section \<open>Notions used by the properties\<close>

text \<open>The edges from each structural token's id to its head. An edge starts at a non-zero
  id only, so that no node of a cycle is 0.\<close>

definition head_edges :: "token list \<Rightarrow> (int \<times> int) set" where
  "head_edges ts = {(a, b). a \<noteq> 0 \<and> (\<exists>t \<in> set ts. id_field t = a \<and> head t = b)}"

definition head_cycle :: "token list \<Rightarrow> bool" where
  "head_cycle ts = (\<exists>c. (c, c) \<in> (head_edges ts)\<^sup>+)"

text \<open>The same over the dictionary that the cycle check walks: for an id that several
  lines carry, only the head of the last of them.\<close>

definition walk_edges :: "(int \<times> int) list \<Rightarrow> (int \<times> int) set" where
  "walk_edges th = {(a, b). a \<noteq> 0 \<and> map_of th a = Some b}"

definition chain_edges :: "token list \<Rightarrow> (int \<times> int) set" where
  "chain_edges ts = walk_edges (token_heads ts)"

definition chain_cycle :: "token list \<Rightarrow> bool" where
  "chain_cycle ts = (\<exists>c. (c, c) \<in> (chain_edges ts)\<^sup>+)"

definition is_root :: "token \<Rightarrow> bool" where
  "is_root t = (head t = 0)"

definition fields_present :: "token \<Rightarrow> bool" where
  "fields_present t =
     (form t \<noteq> [] \<and> form t \<noteq> ''_'' \<and> upos t \<noteq> [] \<and> upos t \<noteq> ''_'' \<and>
      deprel t \<noteq> [] \<and> deprel t \<noteq> ''_'')"

text \<open>A line that the parsing loop takes without a diagnostic: ten fields, and either an
  id with a hyphen or a period, or an id and a head that \<open>int\<close> accepts.\<close>

definition is_skipped :: "string \<Rightarrow> bool" where
  "is_skipped line =
     (length (split_on TAB line) = 10 \<and>
      (CHR ''-'' \<in> set (split_on TAB line ! 0) \<or> CHR ''.'' \<in> set (split_on TAB line ! 0)))"

definition line_ok :: "string \<Rightarrow> bool" where
  "line_ok line =
     (length (split_on TAB line) = 10 \<and>
      (is_skipped line \<or>
       (py_int (split_on TAB line ! 0) \<noteq> None \<and> py_int (split_on TAB line ! 6) \<noteq> None)))"

definition field_count_error :: "nat \<Rightarrow> nat \<Rightarrow> string" where
  "field_count_error n k =
     ''Line '' @ show_nat n @ '': Expected 10 fields, got '' @ show_nat k"

text \<open>The validator after a history of calls.\<close>

definition after_calls :: "CoNLLUValidator \<Rightarrow> (string list \<times> string option) list \<Rightarrow> CoNLLUValidator" where
  "after_calls self calls = fold (\<lambda>(ls, sid) v. snd (validate_sentence v ls sid)) calls self"

text \<open>The driver seen through its two buffers and its output: the rest of its state has
  no influence on them.\<close>

definition passes :: "string list \<Rightarrow> bool" where
  "passes ls = fst (validate_sentence init_validator ls None)"

definition view :: "cleaner_state \<Rightarrow> string list \<times> string list \<times> string" where
  "view st = (current_sentence st, current_comments st, outfile st)"

definition step_view :: "string \<Rightarrow> string list \<times> string list \<times> string \<Rightarrow> string list \<times> string list \<times> string" where
  "step_view raw v =
     (case v of (sent, comm, out) \<Rightarrow>
        let line = rstrip_nl raw in
        if startswith line ''#'' then (sent, comm @ [line], out)
        else if strip line = [] then
          (if sent \<noteq> [] then
             ([], [], if passes sent then out @ sentence_text comm sent else out)
           else (sent, comm, out))
        else (sent @ [line], comm, out))"

definition last_view :: "string list \<times> string list \<times> string \<Rightarrow> string" where
  "last_view v =
     (case v of (sent, comm, out) \<Rightarrow>
        if sent \<noteq> [] \<and> passes sent then out @ sentence_text comm sent else out)"

text \<open>A sentence as it stands in a cleaned file: comment lines, then at least one token
  line, all without a line break, and the token lines pass validation.\<close>

definition comment_line :: "string \<Rightarrow> bool" where
  "comment_line l = (startswith l ''#'' \<and> NL \<notin> set l)"

definition token_line :: "string \<Rightarrow> bool" where
  "token_line l = (\<not> startswith l ''#'' \<and> strip l \<noteq> [] \<and> NL \<notin> set l)"

definition good_block :: "string list \<times> string list \<Rightarrow> bool" where
  "good_block b =
     (case b of (comm, sent) \<Rightarrow>
        list_all comment_line comm \<and> sent \<noteq> [] \<and> list_all token_line sent \<and> passes sent)"

definition blocks_text :: "(string list \<times> string list) list \<Rightarrow> string" where
  "blocks_text bs = concat (map (\<lambda>(comm, sent). sentence_text comm sent) bs)"

text \<open>What the parsing loop keeps true of its locals.\<close>

definition parse_inv :: "parse_state \<Rightarrow> bool" where
  "parse_inv st =
     (roots st = map id_field (filter is_root (tokens st)) \<and>
      token_ids st = id_field ` set (tokens st))"

text \<open>Every head is 0 or the id of a structural token.\<close>

definition heads_valid :: "token list \<Rightarrow> bool" where
  "heads_valid ts = list_all (\<lambda>t. head t = 0 \<or> head t \<in> id_field ` set ts) ts"

text \<open>The output file of a run, computed on the view alone.\<close>

definition cleaned :: "string \<Rightarrow> string" where
  "cleaned input = last_view (fold step_view (readlines input) ([], [], []))"

text \<open>What the loop of the driver keeps true of the view.\<close>

definition view_inv :: "string list \<times> string list \<times> string \<Rightarrow> bool" where
  "view_inv v =
     (case v of (sent, comm, out) \<Rightarrow>
        list_all token_line sent \<and> list_all comment_line comm \<and>
        (\<exists>bs. list_all good_block bs \<and> out = blocks_text bs))"

definition counters_add_up :: "cleaner_state \<Rightarrow> bool" where
  "counters_add_up st = (total_sentences st = valid_sentences st + invalid_sentences st)"

text \<open>The sentence blocks of a file, read off its lines without the driver: the lines
  are stripped of their terminator, comment lines are put aside, the rest is cut at the
  blank lines, and the groups with at least one line are the blocks. The last group has no
  blank line after it.\<close>

fun blank_groups :: "string list \<Rightarrow> string list list" where
  "blank_groups [] = [[]]"
| "blank_groups (l # ls) =
     (if strip l = [] then [] # blank_groups ls
      else (case blank_groups ls of g # gs \<Rightarrow> (l # g) # gs | [] \<Rightarrow> [[l]]))"

definition content_lines :: "string list \<Rightarrow> string list" where
  "content_lines raws = filter (\<lambda>l. \<not> startswith l ''#'') (map rstrip_nl raws)"

definition sentence_blocks :: "string \<Rightarrow> string list list" where
  "sentence_blocks input =
     filter (\<lambda>g. g \<noteq> []) (blank_groups (content_lines (readlines input)))"

text \<open>The blocks still to come when the token buffer holds \<open>cur\<close>.\<close>

definition pending_blocks :: "string list \<Rightarrow> string list \<Rightarrow> string list list" where
  "pending_blocks cur ls =
     filter (\<lambda>g. g \<noteq> [])
       (case blank_groups ls of g # gs \<Rightarrow> (cur @ g) # gs | [] \<Rightarrow> [cur])"

section \<open>Example sentences\<close>

definition conllu_line :: "string list \<Rightarrow> string" where
  "conllu_line fs = join [TAB] fs"

definition dog :: "string \<Rightarrow> string \<Rightarrow> string" where
  "dog i h = conllu_line [i, ''Dog'', ''_'', ''NOUN'', ''_'', ''_'', h, ''nsubj'', ''_'', ''_'']"

definition barks :: "string \<Rightarrow> string \<Rightarrow> string" where
  "barks i h = conllu_line [i, ''barks'', ''_'', ''VERB'', ''_'', ''_'', h, ''root'', ''_'', ''_'']"

definition scenario_A :: "string list" where
  "scenario_A = [dog ''1'' ''2'', barks ''2'' ''0'']"

definition scenario_B :: "string list" where
  "scenario_B = [dog ''1'' ''0'', barks ''2'' ''0'']"

definition scenario_C :: "string list" where
  "scenario_C = [dog ''1'' ''5'', barks ''2'' ''0'']"

definition scenario_D :: "string list" where
  "scenario_D = [dog ''1'' ''2'', barks ''2'' ''1'']"

text \<open>Two lines with the id 1, the first with itself as head.\<close>

definition repeated_id_loop :: "string list" where
  "repeated_id_loop = [dog ''1'' ''1'', barks ''1'' ''0'']"

text \<open>A token line repeated, its head the single root.\<close>

definition repeated_id :: "string list" where
  "repeated_id = [dog ''1'' ''2'', dog ''1'' ''2'', barks ''2'' ''0'']"

text \<open>A correct root line followed by a line of one field.\<close>

definition short_line :: "string list" where
  "short_line = [barks ''1'' ''0'', ''garbage'']"

text \<open>A span line and a line of two fields around a correct sentence.\<close>

definition with_span :: "string list" where
  "with_span = [dog ''1-2'' ''_'', dog ''1'' ''2'', barks ''2'' ''0'']"

definition with_short_span :: "string list" where
  "with_short_span = [conllu_line [''1-2'', ''Dog''], dog ''1'' ''2'', barks ''2'' ''0'']"

text \<open>File texts: scenario E, and a file whose last sentence has no blank line after it.\<close>

definition file_text :: "string list \<Rightarrow> string" where
  "file_text ls = concat (map (\<lambda>l. l @ [NL]) ls)"

definition scenario_E :: string where
  "scenario_E = file_text (scenario_A @ [[]] @ scenario_B @ [[]])"

definition no_final_blank :: string where
  "no_final_blank = file_text ([''# sent_id = 1''] @ scenario_A)"

text \<open>Stand-ins for the floating point operations: the quotient kept as a pair.\<close>

definition pair_ops :: "(nat \<times> nat) float_ops" where
  "pair_ops = \<lparr>true_div = (\<lambda>a b. (a, b)), times_int = (\<lambda>q k. (fst q * k, snd q)),
               format_1f = (\<lambda>q. show_nat (fst q) @ ''/'' @ show_nat (snd q))\<rparr>"

section \<open>The verdict depends on the lines alone\<close>

lemma validator_eq: "(v::CoNLLUValidator)\<lparr>errors := e\<rparr> = w\<lparr>errors := e\<rparr>"
  by (cases v, cases w) simp

lemma validate_sentence_any:
  "validate_sentence v ls sid = validate_sentence w ls sid'"
  by (simp add: validate_sentence_def Let_def validator_eq)

lemma eval_scenario_C_errors:
  "get_errors (snd (validate_sentence init_validator scenario_C (Some ''x'')))
     = [''Token 1 has invalid head 5'']"
  by code_simp

text \<open>
  C9. \<open>validate_sentence\<close> is stateless across calls: two calls with the same lines give
  the same verdict and leave the same diagnostic list for \<open>get_errors\<close>, whatever the
  validator held before, and so whichever and however many sentences were validated
  before either call. Each call replaces the diagnostic list in full.
\<close>

theorem validate_sentence_stateless:
  "validate_sentence v ls sid = validate_sentence w ls sid' \<and>
   get_errors (snd (validate_sentence v ls sid)) = get_errors (snd (validate_sentence w ls sid')) \<and>
   validate_sentence (after_calls v calls) ls sid = validate_sentence (after_calls w calls') ls sid'"
  using validate_sentence_any by metis

theorem validate_sentence_stateless_witness:
  "validate_sentence
      (after_calls init_validator [(scenario_B, None), (scenario_D, Some ''s2'')]) scenario_C None
     = validate_sentence init_validator scenario_C (Some ''x'') \<and>
   get_errors (snd (validate_sentence init_validator scenario_C (Some ''x'')))
     = [''Token 1 has invalid head 5'']"
  using validate_sentence_stateless
    [of "after_calls init_validator [(scenario_B, None), (scenario_D, Some ''s2'')]"
        scenario_C None init_validator "Some ''x''"]
    eval_scenario_C_errors
  by simp

section \<open>Repeated ids\<close>

lemma eval_repeated_id:
  "validate_sentence init_validator repeated_id None = (True, \<lparr>errors = []\<rparr>)"
  by code_simp

lemma eval_repeated_id_tokens:
  "map id_field (structural_tokens repeated_id) = [1, 1, 2]"
  by code_simp

text \<open>
  C10. The uniqueness of token ids is never checked: the sentence \<open>repeated_id\<close> has two
  structural lines with the id 1 (a token that is not the root, given twice, its head the
  single root 2, all required fields present), and \<open>validate_sentence\<close> returns pass for
  it with an empty diagnostic list.
\<close>

theorem repeated_id_passes:
  "map id_field (structural_tokens repeated_id) = [1, 1, 2] \<and>
   map head (structural_tokens repeated_id) = [2, 2, 0] \<and>
   validate_sentence v repeated_id sid = (True, v\<lparr>errors := []\<rparr>)"
proof -
  have "map head (structural_tokens repeated_id) = [2, 2, 0]"
    by code_simp
  moreover have "validate_sentence v repeated_id sid = (True, v\<lparr>errors := []\<rparr>)"
  proof -
    have "validate_sentence v repeated_id sid = validate_sentence init_validator repeated_id None"
      by (rule validate_sentence_any)
    moreover have "fst (validate_sentence v repeated_id sid) = True"
      using calculation eval_repeated_id by simp
    moreover have "errors (snd (validate_sentence v repeated_id sid)) = []"
      using calculation eval_repeated_id by simp
    ultimately show ?thesis
      by (cases "validate_sentence v repeated_id sid", cases v) (auto simp: validate_sentence_def Let_def split: if_splits)
  qed
  ultimately show ?thesis
    using eval_repeated_id_tokens by simp
qed

theorem repeated_id_passes_witness:
  "validate_sentence init_validator repeated_id None = (True, \<lparr>errors = []\<rparr>) \<and>
   map id_field (structural_tokens repeated_id) = [1, 1, 2]"
  using repeated_id_passes [of init_validator None]
  by (simp add: init_validator_def)

section \<open>The parsing loop\<close>

lemma parse_lines_append:
  "parse_lines n (xs @ ys) st = parse_lines (n + length xs) ys (parse_lines n xs st)"
  by (induction xs arbitrary: n st) simp_all

lemma parse_line_bad_count:
  "length (split_on TAB line) \<noteq> 10 \<Longrightarrow>
   parse_line n line st =
     st\<lparr>self_errors := self_errors st @ [field_count_error n (length (split_on TAB line))]\<rparr>"
  by (simp add: parse_line_def field_count_error_def)

lemma parse_line_skipped: "is_skipped line \<Longrightarrow> parse_line n line st = st"
  by (auto simp: parse_line_def is_skipped_def Let_def)

lemma parse_line_ok: "line_ok line \<Longrightarrow> self_errors (parse_line n line st) = self_errors st"
  by (auto simp: parse_line_def line_ok_def is_skipped_def Let_def split: option.splits)

lemma parse_line_errors_mono:
  "set (self_errors st) \<subseteq> set (self_errors (parse_line n line st))"
  by (auto simp: parse_line_def Let_def split: option.splits)

lemma parse_line_errors_L:
  "e \<in> set (self_errors (parse_line n line st)) \<Longrightarrow>
   e \<in> set (self_errors st) \<or> take 5 e = ''Line ''"
  by (auto simp: parse_line_def Let_def split: option.splits if_splits)

lemma parse_line_tokens:
  "t \<in> set (tokens (parse_line n line st)) \<Longrightarrow>
   t \<in> set (tokens st) \<or> (line_num t = n \<and> length (split_on TAB line) = 10 \<and> \<not> is_skipped line)"
  by (auto simp: parse_line_def is_skipped_def Let_def split: option.splits if_splits)

lemma parse_line_inv: "parse_inv st \<Longrightarrow> parse_inv (parse_line n line st)"
  by (auto simp: parse_inv_def parse_line_def is_root_def Let_def split: option.splits)

lemma parse_lines_inv: "parse_inv st \<Longrightarrow> parse_inv (parse_lines n ls st)"
  by (induction ls arbitrary: n st) (simp_all add: parse_line_inv)

lemma parse_start_inv: "parse_inv parse_start"
  by (simp add: parse_inv_def parse_start_def)

lemma parse_lines_errors_mono:
  "set (self_errors st) \<subseteq> set (self_errors (parse_lines n ls st))"
proof (induction ls arbitrary: n st)
  case Nil
  then show ?case by simp
next
  case (Cons l ls)
  then show ?case
    using parse_line_errors_mono by (simp, blast)
qed

lemma parse_lines_errors_L:
  "e \<in> set (self_errors (parse_lines n ls st)) \<Longrightarrow>
   e \<in> set (self_errors st) \<or> take 5 e = ''Line ''"
proof (induction ls arbitrary: n st)
  case Nil
  then show ?case by simp
next
  case (Cons l ls)
  then show ?case
    using parse_line_errors_L by (simp, blast)
qed

lemma parse_lines_ok:
  "list_all line_ok ls \<Longrightarrow> self_errors (parse_lines n ls st) = self_errors st"
  by (induction ls arbitrary: n st) (simp_all add: parse_line_ok)

lemma parse_lines_tokens_range:
  "t \<in> set (tokens (parse_lines n ls st)) \<Longrightarrow>
   t \<in> set (tokens st) \<or> (n \<le> line_num t \<and> line_num t < n + length ls)"
proof (induction ls arbitrary: n st)
  case Nil
  then show ?case by simp
next
  case (Cons l ls)
  from Cons.prems have "t \<in> set (tokens (parse_lines (Suc n) ls (parse_line n l st)))"
    by simp
  then have "t \<in> set (tokens (parse_line n l st)) \<or> (Suc n \<le> line_num t \<and> line_num t < Suc n + length ls)"
    by (rule Cons.IH)
  then show ?case
    using parse_line_tokens [of t n l st] by auto
qed

lemma structural_tokens_Nil: "structural_tokens [] = []"
  by (simp add: structural_tokens_def parse_start_def parse_sentence_def)

lemma roots_structural:
  "roots (parse_sentence ls) = map id_field (filter is_root (structural_tokens ls))"
  using parse_lines_inv [OF parse_start_inv, of 1 ls]
  by (simp add: parse_inv_def structural_tokens_def parse_sentence_def)

lemma token_ids_structural:
  "token_ids (parse_sentence ls) = id_field ` set (structural_tokens ls)"
  using parse_lines_inv [OF parse_start_inv, of 1 ls]
  by (simp add: parse_inv_def structural_tokens_def parse_sentence_def)

text \<open>What a call on a sentence with at least one line returns.\<close>

lemma validate_sentence_nonempty:
  "ls \<noteq> [] \<Longrightarrow>
   validate_sentence v ls sid =
     (check_errors (parse_sentence ls) = [],
      v\<lparr>errors := check_errors (parse_sentence ls)\<rparr>)"
  by (simp add: validate_sentence_def Let_def)

lemma check_errors_structural:
  "check_errors (parse_sentence ls) =
     self_errors (parse_sentence ls) @
     root_errors (map id_field (filter is_root (structural_tokens ls))) @
     head_errors (structural_tokens ls) (id_field ` set (structural_tokens ls)) @
     cycle_errors (structural_tokens ls) @ field_errors (structural_tokens ls)"
  by (simp add: check_errors_def roots_structural token_ids_structural structural_tokens_def)

lemma validate_sentence_verdict:
  "fst (validate_sentence v ls sid) \<longleftrightarrow> get_errors (snd (validate_sentence v ls sid)) = []"
  by (simp add: validate_sentence_def Let_def get_errors_def)

lemma head_errors_mem:
  "t \<in> set ts \<Longrightarrow> head t \<noteq> 0 \<Longrightarrow> head t \<notin> ids \<Longrightarrow> invalid_head_error t \<in> set (head_errors ts ids)"
  by (auto simp: head_errors_def)

lemma eval_scenario_C_tokens:
  "structural_tokens scenario_C =
     [\<lparr>id_field = 1, form = ''Dog'', lemma_field = ''_'', upos = ''NOUN'', head = 5,
       deprel = ''nsubj'', line_num = 1\<rparr>,
      \<lparr>id_field = 2, form = ''barks'', lemma_field = ''_'', upos = ''VERB'', head = 0,
       deprel = ''root'', line_num = 2\<rparr>]"
  by code_simp

lemma show_int_1: "show_int 1 = ''1''" by code_simp
lemma show_int_5: "show_int 5 = ''5''" by code_simp

section \<open>Head references\<close>

text \<open>
  C3. For every sentence with a structural token whose head is not 0 and is not the id of
  any structural token of the sentence, \<open>validate_sentence\<close> returns fail and the
  diagnostic list contains the invalid-head diagnostic that names this token's id and its
  head.
\<close>

theorem invalid_head_reported:
  assumes "t \<in> set (structural_tokens ls)"
    and "head t \<noteq> 0"
    and "head t \<notin> id_field ` set (structural_tokens ls)"
  shows "\<not> fst (validate_sentence v ls sid) \<and>
         ''Token '' @ show_int (id_field t) @ '' has invalid head '' @ show_int (head t)
           \<in> set (get_errors (snd (validate_sentence v ls sid)))"
proof -
  from assms(1) have ne: "ls \<noteq> []"
    using structural_tokens_Nil by auto
  have "invalid_head_error t \<in> set (head_errors (structural_tokens ls) (id_field ` set (structural_tokens ls)))"
    using assms by (rule head_errors_mem)
  then have mem: "invalid_head_error t \<in> set (check_errors (parse_sentence ls))"
    by (simp add: check_errors_structural)
  then have "check_errors (parse_sentence ls) \<noteq> []"
    by auto
  with mem ne show ?thesis
    by (simp add: validate_sentence_nonempty get_errors_def invalid_head_error_def)
qed

theorem invalid_head_reported_witness:
  "\<not> fst (validate_sentence init_validator scenario_C None) \<and>
   ''Token 1 has invalid head 5'' \<in> set (get_errors (snd (validate_sentence init_validator scenario_C None)))"
  using invalid_head_reported
    [of "\<lparr>id_field = 1, form = ''Dog'', lemma_field = ''_'', upos = ''NOUN'', head = 5,
          deprel = ''nsubj'', line_num = 1\<rparr>" scenario_C init_validator None]
  by (simp add: eval_scenario_C_tokens show_int_1 show_int_5)

section \<open>Cycle detection finds exactly the cycles of the chain map\<close>

lemma token_heads_fold_Some:
  "map_of (fold (\<lambda>t d. AList.update (id_field t) (head t) d) ts d0) a = Some b \<Longrightarrow>
   (\<exists>t \<in> set ts. id_field t = a \<and> head t = b) \<or> map_of d0 a = Some b"
proof (induction ts arbitrary: d0)
  case Nil
  then show ?case by simp
next
  case (Cons t ts)
  from Cons.prems
  have "map_of (fold (\<lambda>t d. AList.update (id_field t) (head t) d) ts
          (AList.update (id_field t) (head t) d0)) a = Some b"
    by simp
  then have "(\<exists>u \<in> set ts. id_field u = a \<and> head u = b) \<or>
             map_of (AList.update (id_field t) (head t) d0) a = Some b"
    by (rule Cons.IH)
  then show ?case
    by (auto simp: update_conv' split: if_splits)
qed

lemma token_heads_fold_dom:
  "map_of d0 a \<noteq> None \<or> (\<exists>t \<in> set ts. id_field t = a) \<Longrightarrow>
   map_of (fold (\<lambda>t d. AList.update (id_field t) (head t) d) ts d0) a \<noteq> None"
proof (induction ts arbitrary: d0)
  case Nil
  then show ?case by simp
next
  case (Cons t ts)
  have "map_of (AList.update (id_field t) (head t) d0) a \<noteq> None \<or> (\<exists>u \<in> set ts. id_field u = a)"
    using Cons.prems by (auto simp: update_conv')
  then have "map_of (fold (\<lambda>t d. AList.update (id_field t) (head t) d) ts
               (AList.update (id_field t) (head t) d0)) a \<noteq> None"
    by (rule Cons.IH)
  then show ?case by simp
qed

lemma token_heads_Some:
  "map_of (token_heads ts) a = Some b \<Longrightarrow> \<exists>t \<in> set ts. id_field t = a \<and> head t = b"
  using token_heads_fold_Some [of ts "[]" a b] by (simp add: token_heads_def)

lemma token_heads_dom:
  "t \<in> set ts \<Longrightarrow> map_of (token_heads ts) (id_field t) \<noteq> None"
  using token_heads_fold_dom [of "[]" "id_field t" ts] by (auto simp: token_heads_def)

lemma token_heads_distinct:
  assumes "distinct (map id_field ts)" and "t \<in> set ts"
  shows "map_of (token_heads ts) (id_field t) = Some (head t)"
proof -
  from token_heads_dom [OF assms(2)]
  obtain b where b: "map_of (token_heads ts) (id_field t) = Some b"
    by auto
  then obtain u where u: "u \<in> set ts" "id_field u = id_field t" "head u = b"
    using token_heads_Some by blast
  from assms u(1,2) have "u = t"
    by (meson distinct_map inj_onD)
  with b u(3) show ?thesis by simp
qed

lemma chain_edges_subset: "chain_edges ts \<subseteq> head_edges ts"
  using token_heads_Some by (auto simp: chain_edges_def walk_edges_def head_edges_def)

lemma chain_edges_distinct:
  "distinct (map id_field ts) \<Longrightarrow> chain_edges ts = head_edges ts"
  using token_heads_Some token_heads_distinct
  by (auto simp: chain_edges_def walk_edges_def head_edges_def)

lemma chain_cycle_head_cycle: "chain_cycle ts \<Longrightarrow> head_cycle ts"
  unfolding chain_cycle_def head_cycle_def
  using trancl_mono [OF _ chain_edges_subset] by blast

lemma head_cycle_distinct:
  "distinct (map id_field ts) \<Longrightarrow> head_cycle ts = chain_cycle ts"
  by (simp add: chain_cycle_def head_cycle_def chain_edges_distinct)

lemma walk_edges_iff: "(a, b) \<in> walk_edges th \<longleftrightarrow> a \<noteq> 0 \<and> map_of th a = Some b"
  by (simp add: walk_edges_def)

lemma check_starts_all:
  "check_starts th ts \<longleftrightarrow> (\<forall>t \<in> set ts. chain_walk th {} (id_field t))"
  by (induction ts) auto

lemma chain_walk_step:
  "current \<noteq> 0 \<Longrightarrow> map_of th current = Some h \<Longrightarrow>
   chain_walk th visited current =
     (if current \<in> visited then False else chain_walk th (insert current visited) h)"
  by (subst chain_walk.simps) simp

lemma chain_walk_stop:
  "current = 0 \<or> map_of th current = None \<Longrightarrow> chain_walk th visited current"
  by (subst chain_walk.simps) auto

lemma chain_walk_on_cycle:
  "(x, c) \<in> (walk_edges th)\<^sup>* \<Longrightarrow> (c, c) \<in> (walk_edges th)\<^sup>+ \<Longrightarrow>
   \<not> chain_walk th visited x"
proof (induction th visited x rule: chain_walk.induct)
  case (1 th visited current)
  have "(current, c) \<in> (walk_edges th)\<^sup>+"
  proof (cases "current = c")
    case True
    with "1.prems"(2) show ?thesis by simp
  next
    case False
    with "1.prems"(1) show ?thesis
      by (simp add: rtrancl_eq_or_trancl)
  qed
  then obtain h where h: "(current, h) \<in> walk_edges th" "(h, c) \<in> (walk_edges th)\<^sup>*"
    using tranclD by fastforce
  then have cur: "current \<noteq> 0" "map_of th current = Some h"
    by (simp_all add: walk_edges_iff)
  show ?case
  proof (cases "current \<in> visited")
    case True
    with cur show ?thesis
      by (simp add: chain_walk_step)
  next
    case False
    have "\<not> chain_walk th (insert current visited) h"
      using cur(1) cur(2) False h(2) "1.prems"(2) by (rule "1.IH")
    with cur False show ?thesis
      by (simp add: chain_walk_step)
  qed
qed

lemma chain_walk_finds_cycle:
  "\<not> chain_walk th visited x \<Longrightarrow>
   \<forall>v \<in> visited. (v, x) \<in> (walk_edges th)\<^sup>+ \<Longrightarrow>
   \<exists>c. (c, c) \<in> (walk_edges th)\<^sup>+"
proof (induction th visited x rule: chain_walk.induct)
  case (1 th visited current)
  from "1.prems"(1) have "\<not> (current = 0 \<or> map_of th current = None)"
    using chain_walk_stop by blast
  then obtain h where cur: "current \<noteq> 0" "map_of th current = Some h"
    by auto
  show ?case
  proof (cases "current \<in> visited")
    case True
    with "1.prems"(2) show ?thesis by blast
  next
    case False
    with cur "1.prems"(1) have stop: "\<not> chain_walk th (insert current visited) h"
      by (simp add: chain_walk_step)
    have step: "(current, h) \<in> walk_edges th"
      using cur by (simp add: walk_edges_iff)
    have "\<forall>v \<in> insert current visited. (v, h) \<in> (walk_edges th)\<^sup>+"
    proof
      fix v assume "v \<in> insert current visited"
      then show "(v, h) \<in> (walk_edges th)\<^sup>+"
        using step "1.prems"(2) by (cases "v = current") (auto intro: trancl_into_trancl)
    qed
    with cur(1) cur(2) False stop show ?thesis
      by (rule "1.IH")
  qed
qed

lemma check_no_cycles_iff: "check_no_cycles ts \<longleftrightarrow> \<not> chain_cycle ts"
proof
  assume ok: "check_no_cycles ts"
  show "\<not> chain_cycle ts"
  proof
    assume "chain_cycle ts"
    then obtain c where c: "(c, c) \<in> (walk_edges (token_heads ts))\<^sup>+"
      by (auto simp: chain_cycle_def chain_edges_def)
    then obtain h where "(c, h) \<in> walk_edges (token_heads ts)"
      using tranclD by fastforce
    then have "map_of (token_heads ts) c = Some h"
      by (simp add: walk_edges_iff)
    then obtain t where t: "t \<in> set ts" "id_field t = c"
      using token_heads_Some by blast
    have "\<not> chain_walk (token_heads ts) {} c"
      using _ c by (rule chain_walk_on_cycle) simp
    with t ok show False
      by (auto simp: check_no_cycles_def check_starts_all)
  qed
next
  assume no: "\<not> chain_cycle ts"
  show "check_no_cycles ts"
  proof (rule ccontr)
    assume "\<not> check_no_cycles ts"
    then obtain t where "t \<in> set ts" "\<not> chain_walk (token_heads ts) {} (id_field t)"
      by (auto simp: check_no_cycles_def check_starts_all)
    then have "\<exists>c. (c, c) \<in> (walk_edges (token_heads ts))\<^sup>+"
      using chain_walk_finds_cycle [of "token_heads ts" "{}" "id_field t"] by simp
    with no show False
      by (simp add: chain_cycle_def chain_edges_def)
  qed
qed

section \<open>Cycles\<close>

lemma chain_cycle_Nil: "\<not> chain_cycle []"
  using check_no_cycles_iff [of "[]"] by (simp add: check_no_cycles_def)

lemma parse_sentence_errors_L:
  "e \<in> set (self_errors (parse_sentence ls)) \<Longrightarrow> take 5 e = ''Line ''"
  using parse_lines_errors_L [of e 1 ls parse_start]
  by (simp add: parse_sentence_def parse_start_def)

lemma cycle_msg_not_parse: "''Dependency cycle detected'' \<notin> set (self_errors (parse_sentence ls))"
  using parse_sentence_errors_L [of "''Dependency cycle detected''" ls] by auto

lemma cycle_msg_not_root: "''Dependency cycle detected'' \<notin> set (root_errors rs)"
  by (simp add: root_errors_def)

lemma cycle_msg_not_head: "''Dependency cycle detected'' \<notin> set (head_errors ts ids)"
  by (auto simp: head_errors_def invalid_head_error_def)

lemma cycle_msg_not_field: "''Dependency cycle detected'' \<notin> set (field_errors ts)"
  by (auto simp: field_errors_def token_field_errors_def split: if_splits)

lemma count_cycle_msg:
  "count_list (check_errors (parse_sentence ls)) ''Dependency cycle detected'' =
     (if check_no_cycles (structural_tokens ls) then 0 else 1)"
proof -
  have "count_list (self_errors (parse_sentence ls)) ''Dependency cycle detected'' = 0"
    "count_list (root_errors (map id_field (filter is_root (structural_tokens ls)))) ''Dependency cycle detected'' = 0"
    "count_list (head_errors (structural_tokens ls) (id_field ` set (structural_tokens ls))) ''Dependency cycle detected'' = 0"
    "count_list (field_errors (structural_tokens ls)) ''Dependency cycle detected'' = 0"
    using cycle_msg_not_parse cycle_msg_not_root cycle_msg_not_head cycle_msg_not_field
    by (simp_all only: count_list_0_iff not_False_eq_True)
  then show ?thesis
    by (simp add: check_errors_structural cycle_errors_def)
qed

lemma eval_scenario_D_heads:
  "map_of (token_heads (structural_tokens scenario_D)) 1 = Some 2"
  "map_of (token_heads (structural_tokens scenario_D)) 2 = Some 1"
  by code_simp+

lemma scenario_D_cycle: "chain_cycle (structural_tokens scenario_D)"
proof -
  have "(1, 2) \<in> chain_edges (structural_tokens scenario_D)"
    "(2, 1) \<in> chain_edges (structural_tokens scenario_D)"
    using eval_scenario_D_heads by (simp_all add: chain_edges_def walk_edges_iff)
  then have "(1, 1) \<in> (chain_edges (structural_tokens scenario_D))\<^sup>+"
    by (rule trancl_into_trancl [OF r_into_trancl])
  then show ?thesis
    unfolding chain_cycle_def by blast
qed

lemma eval_scenario_D:
  "validate_sentence init_validator scenario_D None =
     (False, \<lparr>errors = [''No root found (no token with head=0)'', ''Dependency cycle detected'']\<rparr>)"
  by code_simp

lemma eval_repeated_id_loop_tokens:
  "structural_tokens repeated_id_loop =
     [\<lparr>id_field = 1, form = ''Dog'', lemma_field = ''_'', upos = ''NOUN'', head = 1,
       deprel = ''nsubj'', line_num = 1\<rparr>,
      \<lparr>id_field = 1, form = ''barks'', lemma_field = ''_'', upos = ''VERB'', head = 0,
       deprel = ''root'', line_num = 2\<rparr>]"
  by code_simp

lemma eval_repeated_id_loop:
  "validate_sentence init_validator repeated_id_loop None = (True, \<lparr>errors = []\<rparr>)"
  by code_simp

text \<open>
  C1 (as amended). For every sentence whose chain map has a cycle that does not pass
  through 0 (the chain map gives each id the head of the last structural line with that
  id), \<open>validate_sentence\<close> returns fail and the diagnostic list contains the cycle
  diagnostic exactly once. When the ids of the structural tokens are pairwise distinct,
  this covers every cycle among the tokens' heads: a token that is its own head, or
  mutual references.
\<close>

theorem chain_cycle_reported:
  assumes "chain_cycle (structural_tokens ls) \<or>
           (distinct (map id_field (structural_tokens ls)) \<and> head_cycle (structural_tokens ls))"
  shows "\<not> fst (validate_sentence v ls sid) \<and>
         count_list (get_errors (snd (validate_sentence v ls sid))) ''Dependency cycle detected'' = 1"
proof -
  from assms have cyc: "chain_cycle (structural_tokens ls)"
    using head_cycle_distinct by blast
  then have ne: "ls \<noteq> []"
    using chain_cycle_Nil structural_tokens_Nil by auto
  from cyc have "\<not> check_no_cycles (structural_tokens ls)"
    by (simp add: check_no_cycles_iff)
  then have one: "count_list (check_errors (parse_sentence ls)) ''Dependency cycle detected'' = 1"
    by (simp add: count_cycle_msg)
  then have "check_errors (parse_sentence ls) \<noteq> []"
    by auto
  with one ne show ?thesis
    by (simp add: validate_sentence_nonempty get_errors_def)
qed

theorem chain_cycle_reported_witness:
  "chain_cycle (structural_tokens scenario_D) \<and>
   \<not> fst (validate_sentence init_validator scenario_D None) \<and>
   count_list (get_errors (snd (validate_sentence init_validator scenario_D None)))
     ''Dependency cycle detected'' = 1"
  using chain_cycle_reported [of scenario_D init_validator None] scenario_D_cycle
  by simp

text \<open>The claim C1 as it stands fails where an id is repeated: in \<open>repeated_id_loop\<close> the
  first token is its own head, and the sentence passes.\<close>

theorem repeated_id_loop_passes:
  "map id_field (structural_tokens repeated_id_loop) = [1, 1] \<and>
   map head (structural_tokens repeated_id_loop) = [1, 0] \<and>
   head_cycle (structural_tokens repeated_id_loop) \<and>
   validate_sentence init_validator repeated_id_loop None = (True, \<lparr>errors = []\<rparr>)"
proof -
  have "(1, 1) \<in> head_edges (structural_tokens repeated_id_loop)"
    by (simp add: head_edges_def eval_repeated_id_loop_tokens)
  then have "(1, 1) \<in> (head_edges (structural_tokens repeated_id_loop))\<^sup>+"
    by (rule r_into_trancl)
  then have "head_cycle (structural_tokens repeated_id_loop)"
    unfolding head_cycle_def by blast
  then show ?thesis
    by (simp add: eval_repeated_id_loop eval_repeated_id_loop_tokens)
qed

section \<open>The number of roots\<close>

lemma eval_scenario_B_roots:
  "filter is_root (structural_tokens scenario_B) \<noteq> []"
  "length (filter is_root (structural_tokens scenario_B)) = 2"
  "show_int_list (map id_field (filter is_root (structural_tokens scenario_B))) = ''[1, 2]''"
  by code_simp+

lemma scenario_B_nonempty: "scenario_B \<noteq> []"
  by (simp add: scenario_B_def)

text \<open>
  C2 (as amended). For every sentence of at least one line whose structural tokens include
  no token with head 0, or more than one, \<open>validate_sentence\<close> returns fail and the
  diagnostic list contains a root-count message: the message that no root was found, or
  the message that lists the id of every token with head 0, in the order of the lines
  (for scenario B the ids \<open>[1, 2]\<close>).
\<close>

theorem root_count_reported:
  assumes "ls \<noteq> []"
    and "length (filter is_root (structural_tokens ls)) \<noteq> 1"
  shows "\<not> fst (validate_sentence v ls sid) \<and>
         (if filter is_root (structural_tokens ls) = []
          then ''No root found (no token with head=0)''
          else ''Multiple roots found: tokens '' @
               show_int_list (map id_field (filter is_root (structural_tokens ls))) @
               '' all have head=0'')
           \<in> set (get_errors (snd (validate_sentence v ls sid)))"
proof -
  let ?rs = "map id_field (filter is_root (structural_tokens ls))"
  let ?msg = "if filter is_root (structural_tokens ls) = []
          then ''No root found (no token with head=0)''
          else ''Multiple roots found: tokens '' @ show_int_list ?rs @ '' all have head=0''"
  from assms(2) have "root_errors ?rs = [?msg]"
    by (cases "filter is_root (structural_tokens ls)") (auto simp: root_errors_def)
  then have mem: "?msg \<in> set (check_errors (parse_sentence ls))"
    by (simp add: check_errors_structural)
  then have "check_errors (parse_sentence ls) \<noteq> []"
    by auto
  with mem assms(1) show ?thesis
    by (simp add: validate_sentence_nonempty get_errors_def)
qed

theorem root_count_reported_witness:
  "scenario_B \<noteq> [] \<and> length (filter is_root (structural_tokens scenario_B)) \<noteq> 1 \<and>
   \<not> fst (validate_sentence init_validator scenario_B None) \<and>
   ''Multiple roots found: tokens [1, 2] all have head=0''
     \<in> set (get_errors (snd (validate_sentence init_validator scenario_B None)))"
  using root_count_reported [of scenario_B init_validator None]
    eval_scenario_B_roots scenario_B_nonempty
  by simp

text \<open>The claim C2 as it stands fails for the sentence of no lines: the call returns at
  once with the one diagnostic of the empty sentence, before any root is counted.\<close>

theorem empty_sentence_no_root_message:
  "length (filter is_root (structural_tokens [])) = 0 \<and>
   validate_sentence init_validator [] None = (False, \<lparr>errors = [''Empty sentence'']\<rparr>)"
  by (simp add: structural_tokens_Nil validate_sentence_def init_validator_def)

section \<open>Lines of the wrong shape, and skipped lines\<close>

lemma parse_sentence_split:
  assumes "i < length ls"
  shows "parse_sentence ls =
     parse_lines (i + 2) (drop (Suc i) ls)
       (parse_line (Suc i) (ls ! i) (parse_lines 1 (take i ls) parse_start))"
proof -
  have "ls = take i ls @ ls ! i # drop (Suc i) ls"
    using assms by (rule id_take_nth_drop)
  then have "parse_lines 1 ls parse_start =
      parse_lines 1 (take i ls @ ls ! i # drop (Suc i) ls) parse_start"
    by simp
  also have "\<dots> = parse_lines (1 + length (take i ls)) (ls ! i # drop (Suc i) ls)
      (parse_lines 1 (take i ls) parse_start)"
    by (rule parse_lines_append)
  also have "\<dots> = parse_lines (i + 2) (drop (Suc i) ls)
       (parse_line (Suc i) (ls ! i) (parse_lines 1 (take i ls) parse_start))"
    using assms by simp
  finally show ?thesis
    by (simp add: parse_sentence_def)
qed

lemma no_token_of_line:
  assumes "i < length ls"
    and same: "tokens (parse_line (Suc i) (ls ! i) (parse_lines 1 (take i ls) parse_start))
               = tokens (parse_lines 1 (take i ls) parse_start)"
    and t: "t \<in> set (structural_tokens ls)"
  shows "line_num t \<noteq> Suc i"
proof -
  let ?pre = "parse_lines 1 (take i ls) parse_start"
  from t have "t \<in> set (tokens (parse_lines (i + 2) (drop (Suc i) ls)
                 (parse_line (Suc i) (ls ! i) ?pre)))"
    using parse_sentence_split [OF assms(1)] by (simp add: structural_tokens_def)
  then have "t \<in> set (tokens (parse_line (Suc i) (ls ! i) ?pre)) \<or> i + 2 \<le> line_num t"
    using parse_lines_tokens_range by blast
  then have "t \<in> set (tokens ?pre) \<or> i + 2 \<le> line_num t"
    using same by simp
  moreover have "t \<in> set (tokens ?pre) \<Longrightarrow> line_num t < 1 + length (take i ls)"
    using parse_lines_tokens_range [of t 1 "take i ls" parse_start]
    by (auto simp: parse_start_def)
  ultimately show ?thesis
    using assms(1) by auto
qed

lemma eval_with_short_span:
  "length (split_on TAB (with_short_span ! 0)) = 2"
  "show_nat (Suc 0) = ''1''" "show_nat 2 = ''2''"
  by code_simp+

lemma eval_with_span:
  "length (split_on TAB (with_span ! 0)) = 10"
  "CHR ''-'' \<in> set (split_on TAB (with_span ! 0) ! 0)"
  by code_simp+

lemma eval_with_span_rest:
  "parse_lines (0 + 2) (drop (Suc 0) with_span) (parse_lines 1 (take 0 with_span) parse_start)
     = parse_lines 2 scenario_A parse_start"
  by (simp add: with_span_def scenario_A_def numeral_2_eq_2 numeral_3_eq_3)

text \<open>
  C5. Line \<open>i + 1\<close> of a sentence, when it does not split into 10 fields at the tabs
  (whatever its id field holds), records the field-count diagnostic with its number and
  its count, contributes no token, and the sentence fails. When it has 10 fields and an
  id with a hyphen or a period, the loop body leaves every local and the diagnostics as
  they are: the state after the loop is the state reached from the lines before it and
  the lines after it, so the line takes part in no check, and no token carries its number.
\<close>

theorem field_count_and_skipped_lines:
  assumes "i < length ls"
  shows "(length (split_on TAB (ls ! i)) \<noteq> 10 \<longrightarrow>
            \<not> fst (validate_sentence v ls sid) \<and>
            ''Line '' @ show_nat (Suc i) @ '': Expected 10 fields, got '' @
               show_nat (length (split_on TAB (ls ! i)))
              \<in> set (get_errors (snd (validate_sentence v ls sid))) \<and>
            (\<forall>t \<in> set (structural_tokens ls). line_num t \<noteq> Suc i)) \<and>
         (length (split_on TAB (ls ! i)) = 10 \<and>
          (CHR ''-'' \<in> set (split_on TAB (ls ! i) ! 0) \<or>
           CHR ''.'' \<in> set (split_on TAB (ls ! i) ! 0)) \<longrightarrow>
            parse_line (Suc i) (ls ! i) st = st \<and>
            parse_sentence ls =
              parse_lines (i + 2) (drop (Suc i) ls) (parse_lines 1 (take i ls) parse_start) \<and>
            (\<forall>t \<in> set (structural_tokens ls). line_num t \<noteq> Suc i))"
proof (intro conjI impI)
  let ?pre = "parse_lines 1 (take i ls) parse_start"
  let ?msg = "field_count_error (Suc i) (length (split_on TAB (ls ! i)))"
  assume bad: "length (split_on TAB (ls ! i)) \<noteq> 10"
  have step: "parse_line (Suc i) (ls ! i) ?pre = ?pre\<lparr>self_errors := self_errors ?pre @ [?msg]\<rparr>"
    using bad by (rule parse_line_bad_count)
  then have "?msg \<in> set (self_errors (parse_line (Suc i) (ls ! i) ?pre))"
    by simp
  then have "?msg \<in> set (self_errors (parse_sentence ls))"
    using parse_lines_errors_mono parse_sentence_split [OF assms] by fastforce
  then have mem: "?msg \<in> set (check_errors (parse_sentence ls))"
    by (simp add: check_errors_def)
  then have nonempty: "check_errors (parse_sentence ls) \<noteq> []"
    by auto
  from assms have ne: "ls \<noteq> []"
    by auto
  show "\<not> fst (validate_sentence v ls sid)"
    using ne nonempty by (simp add: validate_sentence_nonempty)
  show "''Line '' @ show_nat (Suc i) @ '': Expected 10 fields, got '' @
               show_nat (length (split_on TAB (ls ! i)))
              \<in> set (get_errors (snd (validate_sentence v ls sid)))"
    using ne mem by (simp add: validate_sentence_nonempty get_errors_def field_count_error_def)
  show "\<forall>t \<in> set (structural_tokens ls). line_num t \<noteq> Suc i"
    using no_token_of_line [OF assms] step by simp
next
  let ?pre = "parse_lines 1 (take i ls) parse_start"
  assume "length (split_on TAB (ls ! i)) = 10 \<and>
          (CHR ''-'' \<in> set (split_on TAB (ls ! i) ! 0) \<or>
           CHR ''.'' \<in> set (split_on TAB (ls ! i) ! 0))"
  then have skip: "is_skipped (ls ! i)"
    by (simp add: is_skipped_def)
  then show "parse_line (Suc i) (ls ! i) st = st"
    by (rule parse_line_skipped)
  have same: "parse_line (Suc i) (ls ! i) ?pre = ?pre"
    using skip by (rule parse_line_skipped)
  then show "parse_sentence ls =
              parse_lines (i + 2) (drop (Suc i) ls) (parse_lines 1 (take i ls) parse_start)"
    using parse_sentence_split [OF assms] by simp
  show "\<forall>t \<in> set (structural_tokens ls). line_num t \<noteq> Suc i"
    using no_token_of_line [OF assms] same by simp
qed

theorem field_count_and_skipped_lines_witness:
  "(\<not> fst (validate_sentence init_validator with_short_span None) \<and>
    ''Line 1: Expected 10 fields, got 2''
       \<in> set (get_errors (snd (validate_sentence init_validator with_short_span None))) \<and>
    Suc 0 \<notin> line_num ` set (structural_tokens with_short_span)) \<and>
   (parse_line (Suc 0) (with_span ! 0) parse_start = parse_start \<and>
    parse_sentence with_span = parse_lines 2 scenario_A parse_start \<and>
    Suc 0 \<notin> line_num ` set (structural_tokens with_span))"
proof -
  have a: "0 < length with_short_span" and b: "0 < length with_span"
    by (simp_all add: with_short_span_def with_span_def)
  show ?thesis
    using field_count_and_skipped_lines [OF a, of init_validator None parse_start]
      field_count_and_skipped_lines [OF b, of init_validator None parse_start]
      eval_with_short_span eval_with_span eval_with_span_rest
    by auto
qed

section \<open>Passing sentences\<close>

lemma parse_sentence_ok:
  "list_all line_ok ls \<Longrightarrow> self_errors (parse_sentence ls) = []"
  using parse_lines_ok [of ls 1 parse_start]
  by (simp add: parse_sentence_def parse_start_def)

lemma root_errors_one: "length rs = 1 \<Longrightarrow> root_errors rs = []"
  by (simp add: root_errors_def)

lemma head_errors_valid: "heads_valid ts \<Longrightarrow> head_errors ts (id_field ` set ts) = []"
  by (auto simp: heads_valid_def head_errors_def list_all_iff)

lemma cycle_errors_none: "\<not> head_cycle ts \<Longrightarrow> cycle_errors ts = []"
  using chain_cycle_head_cycle [of ts] by (auto simp: cycle_errors_def check_no_cycles_iff)

lemma field_errors_present: "list_all fields_present ts \<Longrightarrow> field_errors ts = []"
  by (auto simp: field_errors_def token_field_errors_def fields_present_def list_all_iff)

lemma eval_scenario_A_tokens:
  "structural_tokens scenario_A =
     [\<lparr>id_field = 1, form = ''Dog'', lemma_field = ''_'', upos = ''NOUN'', head = 2,
       deprel = ''nsubj'', line_num = 1\<rparr>,
      \<lparr>id_field = 2, form = ''barks'', lemma_field = ''_'', upos = ''VERB'', head = 0,
       deprel = ''root'', line_num = 2\<rparr>]"
  by code_simp

lemma eval_scenario_A_lines: "scenario_A \<noteq> []" "list_all line_ok scenario_A"
  by code_simp+

lemma eval_scenario_A_checks:
  "length (filter is_root (structural_tokens scenario_A)) = 1"
  "heads_valid (structural_tokens scenario_A)"
  "list_all fields_present (structural_tokens scenario_A)"
  "distinct (map id_field (structural_tokens scenario_A))"
  "check_no_cycles (structural_tokens scenario_A)"
  by code_simp+

lemma scenario_A_no_cycle: "\<not> head_cycle (structural_tokens scenario_A)"
  using eval_scenario_A_checks(4,5) by (simp add: head_cycle_distinct check_no_cycles_iff)

lemma eval_short_line_checks:
  "short_line \<noteq> []"
  "length (filter is_root (structural_tokens short_line)) = 1"
  "heads_valid (structural_tokens short_line)"
  "list_all fields_present (structural_tokens short_line)"
  "distinct (map id_field (structural_tokens short_line))"
  "check_no_cycles (structural_tokens short_line)"
  by code_simp+

lemma eval_short_line:
  "validate_sentence init_validator short_line None =
     (False, \<lparr>errors = [''Line 2: Expected 10 fields, got 1'']\<rparr>)"
  by code_simp

text \<open>
  C4 (as amended). \<open>validate_sentence\<close> returns pass if and only if the diagnostic list is
  empty after all four checks. In particular it returns pass with an empty diagnostic
  list for every sentence of at least one line in which every line has exactly 10 fields
  and, unless its id holds a hyphen or a period, an id and a head that \<open>int\<close> accepts,
  and whose structural tokens have exactly one token with head 0, no head other than 0
  or a structural id, no cycle among their heads, and \<open>form\<close>, \<open>upos\<close> and \<open>deprel\<close>
  neither empty nor the underscore.
\<close>

theorem pass_iff_no_diagnostics:
  "(fst (validate_sentence v ls sid) \<longleftrightarrow> get_errors (snd (validate_sentence v ls sid)) = []) \<and>
   (ls \<noteq> [] \<and> list_all line_ok ls \<and>
    length (filter is_root (structural_tokens ls)) = 1 \<and>
    heads_valid (structural_tokens ls) \<and>
    \<not> head_cycle (structural_tokens ls) \<and>
    list_all fields_present (structural_tokens ls) \<longrightarrow>
      validate_sentence v ls sid = (True, v\<lparr>errors := []\<rparr>))"
proof (intro conjI impI)
  show "fst (validate_sentence v ls sid) \<longleftrightarrow> get_errors (snd (validate_sentence v ls sid)) = []"
    by (rule validate_sentence_verdict)
next
  assume h: "ls \<noteq> [] \<and> list_all line_ok ls \<and>
    length (filter is_root (structural_tokens ls)) = 1 \<and>
    heads_valid (structural_tokens ls) \<and>
    \<not> head_cycle (structural_tokens ls) \<and>
    list_all fields_present (structural_tokens ls)"
  then have "self_errors (parse_sentence ls) = []"
    "root_errors (map id_field (filter is_root (structural_tokens ls))) = []"
    "head_errors (structural_tokens ls) (id_field ` set (structural_tokens ls)) = []"
    "cycle_errors (structural_tokens ls) = []"
    "field_errors (structural_tokens ls) = []"
    by (simp_all add: parse_sentence_ok root_errors_one head_errors_valid cycle_errors_none
        field_errors_present)
  then have "check_errors (parse_sentence ls) = []"
    by (simp add: check_errors_structural)
  with h show "validate_sentence v ls sid = (True, v\<lparr>errors := []\<rparr>)"
    by (simp add: validate_sentence_nonempty)
qed

theorem pass_iff_no_diagnostics_witness:
  "(scenario_A \<noteq> [] \<and> list_all line_ok scenario_A \<and>
    length (filter is_root (structural_tokens scenario_A)) = 1 \<and>
    heads_valid (structural_tokens scenario_A) \<and>
    \<not> head_cycle (structural_tokens scenario_A) \<and>
    list_all fields_present (structural_tokens scenario_A)) \<and>
   validate_sentence init_validator scenario_A None = (True, \<lparr>errors = []\<rparr>) \<and>
   (fst (validate_sentence init_validator scenario_A None) \<longleftrightarrow>
    get_errors (snd (validate_sentence init_validator scenario_A None)) = [])"
  using pass_iff_no_diagnostics [of init_validator scenario_A None]
    eval_scenario_A_lines eval_scenario_A_checks(1,2,3) scenario_A_no_cycle
  by (simp add: init_validator_def get_errors_def)

text \<open>The claim C4 as it stands fails where a line adds a diagnostic and no token: the
  structural tokens of \<open>short_line\<close> meet every condition of the claim, and its second
  line has one field.\<close>

theorem short_line_fails:
  "short_line \<noteq> [] \<and>
   length (filter is_root (structural_tokens short_line)) = 1 \<and>
   heads_valid (structural_tokens short_line) \<and>
   \<not> head_cycle (structural_tokens short_line) \<and>
   list_all fields_present (structural_tokens short_line) \<and>
   validate_sentence init_validator short_line None =
     (False, \<lparr>errors = [''Line 2: Expected 10 fields, got 1'']\<rparr>)"
  using eval_short_line_checks eval_short_line
  by (simp add: head_cycle_distinct check_no_cycles_iff)

section \<open>The counters and the summary\<close>

lemma emit_or_drop_counts:
  "total_sentences (emit_or_drop verbose place st) = total_sentences st + 1 \<and>
   ((valid_sentences (emit_or_drop verbose place st) = valid_sentences st + 1 \<and>
     invalid_sentences (emit_or_drop verbose place st) = invalid_sentences st) \<or>
    (valid_sentences (emit_or_drop verbose place st) = valid_sentences st \<and>
     invalid_sentences (emit_or_drop verbose place st) = invalid_sentences st + 1))"
  by (simp add: emit_or_drop_def Let_def)

lemma emit_or_drop_add_up:
  "counters_add_up st \<Longrightarrow> counters_add_up (emit_or_drop verbose place st)"
  using emit_or_drop_counts [of verbose place st] by (auto simp: counters_add_up_def)

lemma process_line_add_up:
  "counters_add_up st \<Longrightarrow> counters_add_up (process_line verbose n raw st)"
proof -
  assume a: "counters_add_up st"
  have "counters_add_up (emit_or_drop verbose ('' (line ~'' @ show_nat n @ '')'') st)"
    using a by (rule emit_or_drop_add_up)
  then have "counters_add_up ((emit_or_drop verbose ('' (line ~'' @ show_nat n @ '')'') st)
             \<lparr>current_sentence := [], current_comments := [], sent_id := None\<rparr>)"
    by (simp add: counters_add_up_def)
  with a show ?thesis
    by (simp add: process_line_def Let_def counters_add_up_def)
qed

lemma process_lines_add_up:
  "counters_add_up st \<Longrightarrow> counters_add_up (process_lines verbose n ls st)"
  by (induction ls arbitrary: n st) (simp_all add: process_line_add_up)

lemma process_stream_add_up: "counters_add_up (process_stream verbose input)"
proof -
  have "counters_add_up init_state"
    by (simp add: counters_add_up_def init_state_def)
  then have "counters_add_up (process_lines verbose 1 (readlines input) init_state)"
    by (rule process_lines_add_up)
  then show ?thesis
    by (simp add: process_stream_def last_sentence_def emit_or_drop_add_up)
qed

lemma py_truediv_nonzero: "0 < b \<Longrightarrow> py_truediv fl a b = Inr (true_div fl a b)"
  by (simp add: py_truediv_def)

lemma success_rate_line_value:
  "success_rate_line fl a b =
     Inr (if b > 0 then ''  Success rate: '' @ format_1f fl (times_int fl (true_div fl a b) 100) @ ''%''
          else ''  Success rate: 0%'')"
  by (simp add: success_rate_line_def py_truediv_nonzero)

lemma clean_conllu_file_value:
  "clean_conllu_file fl input verbose =
     Inr ((process_stream verbose input)
       \<lparr>printed := printed (process_stream verbose input) @
          [''Processing complete:'',
           ''  Total sentences: '' @ show_nat (total_sentences (process_stream verbose input)),
           ''  Valid sentences: '' @ show_nat (valid_sentences (process_stream verbose input)),
           ''  Invalid sentences removed: '' @ show_nat (invalid_sentences (process_stream verbose input)),
           (if total_sentences (process_stream verbose input) > 0
            then ''  Success rate: '' @
                 format_1f fl (times_int fl (true_div fl (valid_sentences (process_stream verbose input))
                    (total_sentences (process_stream verbose input))) 100) @ ''%''
            else ''  Success rate: 0%'')]\<rparr>)"
  by (simp add: clean_conllu_file_def Let_def success_rate_line_value)

lemma eval_no_final_blank:
  "total_sentences (process_stream True no_final_blank) = 1"
  "valid_sentences (process_stream True no_final_blank) = 1"
  "invalid_sentences (process_stream True no_final_blank) = 0"
  by code_simp+

lemma eval_scenario_E:
  "total_sentences (process_stream True scenario_E) = 2"
  "valid_sentences (process_stream True scenario_E) = 1"
  "invalid_sentences (process_stream True scenario_E) = 1"
  "outfile (process_stream True scenario_E) = file_text (scenario_A @ [[]])"
  by code_simp+

lemma eval_pending:
  "current_sentence (process_lines True 1 (readlines no_final_blank) init_state) \<noteq> []"
  "total_sentences (process_lines True 1 (readlines no_final_blank) init_state) = 0"
  by code_simp+

lemma eval_empty_run:
  "clean_conllu_file pair_ops [] False =
     Inr (init_state\<lparr>printed := [''Processing complete:'', ''  Total sentences: 0'',
            ''  Valid sentences: 0'', ''  Invalid sentences removed: 0'',
            ''  Success rate: 0%'']\<rparr>)"
  by code_simp

text \<open>
  C8. The summary divides only when \<open>total\<close> is greater than zero, and then prints
  valid/total times 100 in the format of one decimal place; when \<open>total\<close> is zero it
  prints a success rate of zero. The division, which raises on a zero divisor, is never
  reached with one, so \<open>clean_conllu_file\<close> returns for every input, also for an input
  without sentences.
\<close>

theorem summary_guards_division:
  "(\<exists>r. clean_conllu_file fl input verbose = Inr r \<and>
        last (printed r) =
          (if total_sentences r > 0
           then ''  Success rate: '' @
                format_1f fl (times_int fl (true_div fl (valid_sentences r) (total_sentences r)) 100) @
                ''%''
           else ''  Success rate: 0%'')) \<and>
   success_rate_line fl a 0 = Inr ''  Success rate: 0%'' \<and>
   (0 < b \<longrightarrow>
      success_rate_line fl a b =
        Inr (''  Success rate: '' @ format_1f fl (times_int fl (true_div fl a b) 100) @ ''%'')) \<and>
   py_truediv fl a 0 = Inl ZeroDivisionError"
  by (simp add: clean_conllu_file_value success_rate_line_value py_truediv_def)

theorem summary_guards_division_witness:
  "(\<exists>r. clean_conllu_file pair_ops [] False = Inr r \<and> total_sentences r = 0 \<and>
        last (printed r) = ''  Success rate: 0%'') \<and>
   (0 < (2::nat) \<and> success_rate_line pair_ops 1 2 = Inr ''  Success rate: 100/2%'')"
proof -
  have "show_nat 100 = ''100''" "show_nat 2 = ''2''"
    by code_simp+
  then show ?thesis
    using summary_guards_division [of pair_ops "[]" False 1 2] eval_empty_run
    by (simp add: pair_ops_def init_state_def)
qed

section \<open>The output file through the view\<close>

lemma passes_validator:
  "fst (validate_sentence v ls sid) = passes ls"
  unfolding passes_def using validate_sentence_any [of v ls sid init_validator None] by simp

lemma emit_or_drop_view:
  "view (emit_or_drop verbose place st) =
     (current_sentence st, current_comments st,
      if passes (current_sentence st)
      then outfile st @ sentence_text (current_comments st) (current_sentence st)
      else outfile st)"
  by (simp add: emit_or_drop_def view_def Let_def passes_validator)

lemma view_reset:
  "view (st\<lparr>current_sentence := [], current_comments := [], sent_id := None\<rparr>) =
     ([], [], snd (snd (view st)))"
  by (simp add: view_def)

lemma view_process_line:
  "view (process_line verbose n raw st) = step_view raw (view st)"
proof -
  have blank: "view ((emit_or_drop verbose ('' (line ~'' @ show_nat n @ '')'') st)
                 \<lparr>current_sentence := [], current_comments := [], sent_id := None\<rparr>) =
        ([], [], if passes (current_sentence st)
                 then outfile st @ sentence_text (current_comments st) (current_sentence st)
                 else outfile st)"
    by (simp only: view_reset emit_or_drop_view snd_conv)
  show ?thesis
  proof (cases "startswith (rstrip_nl raw) ''#''")
    case True
    then show ?thesis
      by (simp add: process_line_def step_view_def view_def Let_def)
  next
    case False
    note nc = this
    show ?thesis
    proof (cases "strip (rstrip_nl raw) = []")
      case False
      with nc show ?thesis
        by (simp add: process_line_def step_view_def view_def Let_def)
    next
      case True
      show ?thesis
      proof (cases "current_sentence st = []")
        case True
        with nc \<open>strip (rstrip_nl raw) = []\<close> show ?thesis
          by (simp add: process_line_def step_view_def view_def Let_def)
      next
        case False
        have "process_line verbose n raw st =
            (emit_or_drop verbose ('' (line ~'' @ show_nat n @ '')'') st)
                 \<lparr>current_sentence := [], current_comments := [], sent_id := None\<rparr>"
          using nc \<open>strip (rstrip_nl raw) = []\<close> False
          by (simp add: process_line_def Let_def)
        moreover have "step_view raw (view st) =
            ([], [], if passes (current_sentence st)
                 then outfile st @ sentence_text (current_comments st) (current_sentence st)
                 else outfile st)"
          using nc \<open>strip (rstrip_nl raw) = []\<close> False
          by (simp add: step_view_def view_def Let_def)
        ultimately show ?thesis
          using blank by simp
      qed
    qed
  qed
qed

lemma view_process_lines:
  "view (process_lines verbose n ls st) = fold step_view ls (view st)"
  by (induction ls arbitrary: n st) (simp_all add: view_process_line)

lemma outfile_last_sentence: "outfile (last_sentence verbose st) = last_view (view st)"
proof (cases "current_sentence st = []")
  case True
  then show ?thesis
    by (simp add: last_sentence_def last_view_def view_def)
next
  case False
  have "outfile (emit_or_drop verbose [] st) = snd (snd (view (emit_or_drop verbose [] st)))"
    by (simp add: view_def)
  with False show ?thesis
    by (simp add: last_sentence_def last_view_def emit_or_drop_view) (simp add: view_def)
qed

lemma outfile_process_stream: "outfile (process_stream verbose input) = cleaned input"
proof -
  have "view init_state = ([], [], [])"
    by (simp add: view_def init_state_def)
  then show ?thesis
    by (simp add: process_stream_def outfile_last_sentence view_process_lines cleaned_def)
qed

section \<open>A cleaned file is a fixed point\<close>

lemma readlines_line:
  "NL \<notin> set l \<Longrightarrow> readlines (l @ NL # rest) = (l @ [NL]) # readlines rest"
  by (induction l) auto

lemma readlines_lines:
  "\<forall>l \<in> set ls. NL \<notin> set l \<Longrightarrow>
   readlines (concat (map (\<lambda>l. l @ [NL]) ls) @ rest) = map (\<lambda>l. l @ [NL]) ls @ readlines rest"
  by (induction ls) (simp_all add: readlines_line)

lemma readlines_shape:
  "x \<in> set (readlines t) \<Longrightarrow> x \<noteq> [] \<and> NL \<notin> set (butlast x)"
proof (induction t arbitrary: x)
  case Nil
  then show ?case by simp
next
  case (Cons c cs)
  show ?case
  proof (cases "c = NL")
    case True
    with Cons show ?thesis by auto
  next
    case False
    show ?thesis
    proof (cases "readlines cs")
      case Nil
      with False Cons.prems show ?thesis by auto
    next
      case (Cons l ls)
      then have l: "l \<noteq> [] \<and> NL \<notin> set (butlast l)"
        using Cons.IH [of l] by simp
      from Cons False Cons.prems have "x = c # l \<or> x \<in> set (readlines cs)"
        by auto
      then show ?thesis
      proof
        assume "x = c # l"
        with l False show ?thesis by auto
      next
        assume "x \<in> set (readlines cs)"
        then show ?thesis by (rule Cons.IH)
      qed
    qed
  qed
qed

lemma rstrip_nl_snoc: "NL \<notin> set l \<Longrightarrow> rstrip_nl (l @ [NL]) = l"
proof -
  assume a: "NL \<notin> set l"
  then have "dropWhile (\<lambda>c. c = NL) (rev l) = rev l"
    by (cases "rev l") (auto simp: in_set_conv_decomp)
  then show ?thesis
    by (simp add: rstrip_nl_def)
qed

lemma rstrip_nl_free: "NL \<notin> set l \<Longrightarrow> rstrip_nl l = l"
proof -
  assume a: "NL \<notin> set l"
  then have "dropWhile (\<lambda>c. c = NL) (rev l) = rev l"
    by (cases "rev l") (auto simp: in_set_conv_decomp)
  then show ?thesis
    by (simp add: rstrip_nl_def)
qed

lemma rstrip_nl_readlines:
  assumes "x \<in> set (readlines t)"
  shows "NL \<notin> set (rstrip_nl x)"
proof -
  from assms have x: "x \<noteq> []" "NL \<notin> set (butlast x)"
    using readlines_shape by blast+
  then have eq: "x = butlast x @ [last x]"
    by simp
  show ?thesis
  proof (cases "last x = NL")
    case True
    with eq have "rstrip_nl x = rstrip_nl (butlast x @ [NL])"
      by simp
    then show ?thesis
      using x(2) by (simp add: rstrip_nl_snoc)
  next
    case False
    with eq x(2) have "NL \<notin> set x"
      by (metis Un_iff empty_iff empty_set set_ConsD set_append)
    then show ?thesis
      by (simp add: rstrip_nl_free)
  qed
qed

lemma blocks_text_Cons:
  "blocks_text ((comm, sent) # bs) = sentence_text comm sent @ blocks_text bs"
  by (simp add: blocks_text_def)

lemma blocks_text_snoc:
  "blocks_text (bs @ [(comm, sent)]) = blocks_text bs @ sentence_text comm sent"
  by (simp add: blocks_text_def)

lemma step_view_inv:
  assumes "view_inv v" and "NL \<notin> set (rstrip_nl raw)"
  shows "view_inv (step_view raw v)"
proof -
  obtain sent comm out where v: "v = (sent, comm, out)"
    by (cases v) auto
  from assms(1) v obtain bs where inv:
    "list_all token_line sent" "list_all comment_line comm"
    "list_all good_block bs" "out = blocks_text bs"
    by (auto simp: view_inv_def)
  let ?line = "rstrip_nl raw"
  show ?thesis
  proof (cases "startswith ?line ''#''")
    case True
    then have "comment_line ?line"
      using assms(2) by (simp add: comment_line_def)
    with True inv v show ?thesis
      by (auto simp: step_view_def view_inv_def Let_def)
  next
    case False
    note nc = this
    show ?thesis
    proof (cases "strip ?line = []")
      case False
      then have "token_line ?line"
        using nc assms(2) by (simp add: token_line_def)
      with nc False inv v show ?thesis
        by (auto simp: step_view_def view_inv_def Let_def)
    next
      case True
      show ?thesis
      proof (cases "sent \<noteq> [] \<and> passes sent")
        case False
        with nc True inv v show ?thesis
          by (auto simp: step_view_def view_inv_def Let_def)
      next
        case ok: True
        then have "good_block (comm, sent)"
          using inv by (simp add: good_block_def)
        then have "list_all good_block (bs @ [(comm, sent)])"
          using inv(3) by simp
        moreover have "out @ sentence_text comm sent = blocks_text (bs @ [(comm, sent)])"
          using inv(4) by (simp add: blocks_text_snoc)
        moreover have "step_view raw v = ([], [], out @ sentence_text comm sent)"
          using nc True ok v by (simp add: step_view_def Let_def)
        ultimately show ?thesis
          unfolding view_inv_def by (simp del: list_all_append, blast)
      qed
    qed
  qed
qed

lemma fold_step_view_inv:
  "view_inv v \<Longrightarrow> \<forall>raw \<in> set ls. NL \<notin> set (rstrip_nl raw) \<Longrightarrow>
   view_inv (fold step_view ls v)"
  by (induction ls arbitrary: v) (simp_all add: step_view_inv)

lemma cleaned_blocks: "\<exists>bs. list_all good_block bs \<and> cleaned input = blocks_text bs"
proof -
  have "view_inv ([], [], [])"
    unfolding view_inv_def
    by (simp, rule exI [of _ "[]"]) (simp add: blocks_text_def)
  then have "view_inv (fold step_view (readlines input) ([], [], []))"
    using rstrip_nl_readlines by (intro fold_step_view_inv) auto
  then obtain sent comm bs where f:
    "fold step_view (readlines input) ([], [], []) = (sent, comm, blocks_text bs)"
    "list_all token_line sent" "list_all comment_line comm" "list_all good_block bs"
    by (cases "fold step_view (readlines input) ([], [], [])") (auto simp: view_inv_def)
  show ?thesis
  proof (cases "sent \<noteq> [] \<and> passes sent")
    case False
    with f show ?thesis
      by (auto simp: cleaned_def last_view_def)
  next
    case True
    then have "good_block (comm, sent)"
      using f by (simp add: good_block_def)
    then have "list_all good_block (bs @ [(comm, sent)])"
      using f(4) by simp
    moreover have "cleaned input = blocks_text (bs @ [(comm, sent)])"
      using True f(1) by (simp add: cleaned_def last_view_def blocks_text_snoc)
    ultimately show ?thesis
      by blast
  qed
qed

lemma fold_comment_lines:
  "list_all comment_line cs \<Longrightarrow>
   fold step_view (map (\<lambda>l. l @ [NL]) cs) (sent, comm, out) = (sent, comm @ cs, out)"
proof (induction cs arbitrary: comm)
  case Nil
  then show ?case by simp
next
  case (Cons c cs)
  then have "comment_line c" and rest: "list_all comment_line cs"
    by simp_all
  then have c: "startswith c ''#''" "NL \<notin> set c"
    by (simp_all add: comment_line_def)
  have "step_view (c @ [NL]) (sent, comm, out) = (sent, comm @ [c], out)"
    using c by (simp add: step_view_def rstrip_nl_snoc Let_def)
  then show ?case
    using Cons.IH [OF rest, of "comm @ [c]"] by simp
qed

lemma fold_token_lines:
  "list_all token_line ts \<Longrightarrow>
   fold step_view (map (\<lambda>l. l @ [NL]) ts) (sent, comm, out) = (sent @ ts, comm, out)"
proof (induction ts arbitrary: sent)
  case Nil
  then show ?case by simp
next
  case (Cons t ts)
  then have "token_line t" and rest: "list_all token_line ts"
    by simp_all
  then have t: "\<not> startswith t ''#''" "strip t \<noteq> []" "NL \<notin> set t"
    by (simp_all add: token_line_def)
  have "step_view (t @ [NL]) (sent, comm, out) = (sent @ [t], comm, out)"
    using t by (simp add: step_view_def rstrip_nl_snoc Let_def)
  then show ?case
    using Cons.IH [OF rest, of "sent @ [t]"] by simp
qed

lemma step_view_blank:
  "sent \<noteq> [] \<Longrightarrow> passes sent \<Longrightarrow>
   step_view [NL] (sent, comm, out) = ([], [], out @ sentence_text comm sent)"
  by (simp add: step_view_def rstrip_nl_def startswith_def strip_def Let_def)

lemma readlines_block:
  assumes "good_block (comm, sent)"
  shows "readlines (sentence_text comm sent @ rest) =
     map (\<lambda>l. l @ [NL]) comm @ map (\<lambda>l. l @ [NL]) sent @ [[NL]] @ readlines rest"
proof -
  from assms have nl: "\<forall>l \<in> set (comm @ sent). NL \<notin> set l"
    by (auto simp: good_block_def comment_line_def token_line_def list_all_iff)
  have "sentence_text comm sent @ rest =
      concat (map (\<lambda>l. l @ [NL]) (comm @ sent)) @ ([] @ NL # rest)"
    by (simp add: sentence_text_def)
  then have "readlines (sentence_text comm sent @ rest) =
      map (\<lambda>l. l @ [NL]) (comm @ sent) @ readlines ([] @ NL # rest)"
    using readlines_lines [OF nl] by simp
  also have "readlines ([] @ NL # rest) = [NL] # readlines rest"
    by simp
  finally show ?thesis
    by simp
qed

lemma fold_block:
  assumes "good_block (comm, sent)"
  shows "fold step_view (readlines (sentence_text comm sent @ rest)) ([], [], out) =
         fold step_view (readlines rest) ([], [], out @ sentence_text comm sent)"
proof -
  from assms have g: "list_all comment_line comm" "sent \<noteq> []" "list_all token_line sent"
    "passes sent"
    by (simp_all add: good_block_def)
  have "fold step_view (map (\<lambda>l. l @ [NL]) comm) ([], [], out) = ([], comm, out)"
    using fold_comment_lines [OF g(1), of "[]" "[]" out] by simp
  moreover have "fold step_view (map (\<lambda>l. l @ [NL]) sent) ([], comm, out) = (sent, comm, out)"
    using fold_token_lines [OF g(3), of "[]" comm out] by simp
  moreover have "step_view [NL] (sent, comm, out) = ([], [], out @ sentence_text comm sent)"
    using g(2,4) by (rule step_view_blank)
  ultimately show ?thesis
    by (simp add: readlines_block [OF assms])
qed

lemma fold_blocks:
  "list_all good_block bs \<Longrightarrow>
   fold step_view (readlines (blocks_text bs)) ([], [], out) = ([], [], out @ blocks_text bs)"
proof (induction bs arbitrary: out)
  case Nil
  then show ?case by (simp add: blocks_text_def)
next
  case (Cons b bs)
  obtain comm sent where b: "b = (comm, sent)"
    by (cases b) auto
  from Cons.prems b have g: "good_block (comm, sent)" and rest: "list_all good_block bs"
    by simp_all
  have "fold step_view (readlines (blocks_text (b # bs))) ([], [], out) =
        fold step_view (readlines (blocks_text bs)) ([], [], out @ sentence_text comm sent)"
    using fold_block [OF g] b by (simp add: blocks_text_Cons)
  also have "\<dots> = ([], [], (out @ sentence_text comm sent) @ blocks_text bs)"
    using rest by (rule Cons.IH)
  finally show ?case
    using b by (simp add: blocks_text_Cons)
qed

lemma cleaned_blocks_text: "list_all good_block bs \<Longrightarrow> cleaned (blocks_text bs) = blocks_text bs"
  using fold_blocks [of bs "[]"] by (simp add: cleaned_def last_view_def)

lemma cleaned_idem: "cleaned (cleaned input) = cleaned input"
  using cleaned_blocks [of input] cleaned_blocks_text by auto

text \<open>
  C6. Cleaning is idempotent: for every input file the run returns, the run on its output
  returns, and the second output is the first. The first output is a sequence of
  sentences, each one comment lines and token lines that pass validation, followed by one
  blank line; each is written again as it stands.
\<close>

theorem cleaning_idempotent:
  "\<exists>r r' bs. clean_conllu_file fl input verbose = Inr r \<and>
      clean_conllu_file fl' (outfile r) verbose' = Inr r' \<and>
      outfile r' = outfile r \<and>
      list_all good_block bs \<and> outfile r = blocks_text bs"
proof -
  obtain bs where bs: "list_all good_block bs" "cleaned input = blocks_text bs"
    using cleaned_blocks by blast
  let ?r = "(process_stream verbose input)
       \<lparr>printed := printed (process_stream verbose input) @
          [''Processing complete:'',
           ''  Total sentences: '' @ show_nat (total_sentences (process_stream verbose input)),
           ''  Valid sentences: '' @ show_nat (valid_sentences (process_stream verbose input)),
           ''  Invalid sentences removed: '' @ show_nat (invalid_sentences (process_stream verbose input)),
           (if total_sentences (process_stream verbose input) > 0
            then ''  Success rate: '' @
                 format_1f fl (times_int fl (true_div fl (valid_sentences (process_stream verbose input))
                    (total_sentences (process_stream verbose input))) 100) @ ''%''
            else ''  Success rate: 0%'')]\<rparr>"
  have r: "clean_conllu_file fl input verbose = Inr ?r"
    by (rule clean_conllu_file_value)
  have out: "outfile ?r = cleaned input"
    by (simp add: outfile_process_stream)
  obtain r' where r': "clean_conllu_file fl' (cleaned input) verbose' = Inr r'"
    "outfile r' = cleaned (cleaned input)"
    using clean_conllu_file_value [of fl' "cleaned input" verbose']
    by (simp add: outfile_process_stream)
  show ?thesis
    using r r' out bs cleaned_idem [of input] by (intro exI [of _ ?r] exI [of _ r'] exI [of _ bs]) simp
qed

theorem cleaning_idempotent_witness:
  "\<exists>r r'. clean_conllu_file pair_ops scenario_E True = Inr r \<and>
      outfile r = file_text (scenario_A @ [[]]) \<and>
      clean_conllu_file pair_ops (outfile r) False = Inr r' \<and>
      outfile r' = outfile r"
proof -
  have "\<And>r. clean_conllu_file pair_ops scenario_E True = Inr r \<Longrightarrow>
      outfile r = file_text (scenario_A @ [[]])"
    using eval_scenario_E(4) by (auto simp: clean_conllu_file_value)
  then show ?thesis
    using cleaning_idempotent [of pair_ops scenario_E True pair_ops False] by metis
qed

section \<open>The counters count the sentence blocks\<close>

lemma blank_groups_nonempty: "blank_groups ls \<noteq> []"
  by (induction ls) (auto split: list.splits)

lemma pending_blocks_Nil: "pending_blocks cur [] = (if cur \<noteq> [] then [cur] else [])"
  by (simp add: pending_blocks_def)

lemma pending_blocks_blank:
  "strip l = [] \<Longrightarrow>
   pending_blocks cur (l # ls) = (if cur \<noteq> [] then [cur] else []) @ pending_blocks [] ls"
  using blank_groups_nonempty [of ls]
  by (cases "blank_groups ls") (simp_all add: pending_blocks_def)

lemma pending_blocks_token:
  "strip l \<noteq> [] \<Longrightarrow> pending_blocks cur (l # ls) = pending_blocks (cur @ [l]) ls"
  using blank_groups_nonempty [of ls]
  by (cases "blank_groups ls") (simp_all add: pending_blocks_def)

lemma sentence_blocks_pending:
  "sentence_blocks input = pending_blocks [] (content_lines (readlines input))"
  using blank_groups_nonempty [of "content_lines (readlines input)"]
  by (cases "blank_groups (content_lines (readlines input))")
     (simp_all add: sentence_blocks_def pending_blocks_def)

lemma emit_or_drop_exact:
  "total_sentences (emit_or_drop verbose place st) = total_sentences st + 1 \<and>
   valid_sentences (emit_or_drop verbose place st) =
     valid_sentences st + (if passes (current_sentence st) then 1 else 0) \<and>
   invalid_sentences (emit_or_drop verbose place st) =
     invalid_sentences st + (if passes (current_sentence st) then 0 else 1) \<and>
   current_sentence (emit_or_drop verbose place st) = current_sentence st"
  by (simp add: emit_or_drop_def Let_def passes_validator)

text \<open>The three counters as a triple.\<close>

lemma counts_run:
  "total_sentences (last_sentence verbose (process_lines verbose n raws st)) =
     total_sentences st + length (pending_blocks (current_sentence st) (content_lines raws)) \<and>
   valid_sentences (last_sentence verbose (process_lines verbose n raws st)) =
     valid_sentences st +
     length (filter passes (pending_blocks (current_sentence st) (content_lines raws))) \<and>
   invalid_sentences (last_sentence verbose (process_lines verbose n raws st)) =
     invalid_sentences st +
     length (filter (\<lambda>b. \<not> passes b) (pending_blocks (current_sentence st) (content_lines raws)))"
proof (induction raws arbitrary: n st)
  case Nil
  show ?case
    using emit_or_drop_exact [of verbose "[]" st]
    by (simp add: last_sentence_def content_lines_def pending_blocks_Nil)
next
  case (Cons raw raws)
  let ?line = "rstrip_nl raw"
  let ?st = "process_line verbose n raw st"
  note IH = Cons.IH [of "Suc n" ?st]
  show ?case
  proof (cases "startswith ?line ''#''")
    case True
    then have "total_sentences ?st = total_sentences st"
      "valid_sentences ?st = valid_sentences st"
      "invalid_sentences ?st = invalid_sentences st"
      "current_sentence ?st = current_sentence st"
      by (simp_all add: process_line_def Let_def)
    moreover have "content_lines (raw # raws) = content_lines raws"
      using True by (simp add: content_lines_def)
    ultimately show ?thesis
      using IH by simp
  next
    case False
    then have cl: "content_lines (raw # raws) = ?line # content_lines raws"
      by (simp add: content_lines_def)
    show ?thesis
    proof (cases "strip ?line = []")
      case blank: True
      show ?thesis
      proof (cases "current_sentence st = []")
        case True
        then have "?st = st"
          using False blank by (simp add: process_line_def Let_def)
        then show ?thesis
          using IH True blank cl by (simp add: pending_blocks_blank)
      next
        case ne: False
        let ?e = "emit_or_drop verbose ('' (line ~'' @ show_nat n @ '')'') st"
        have "?st = ?e\<lparr>current_sentence := [], current_comments := [], sent_id := None\<rparr>"
          using False blank ne by (simp add: process_line_def Let_def)
        then have "total_sentences ?st = total_sentences st + 1"
          "valid_sentences ?st = valid_sentences st + (if passes (current_sentence st) then 1 else 0)"
          "invalid_sentences ?st = invalid_sentences st + (if passes (current_sentence st) then 0 else 1)"
          "current_sentence ?st = []"
          using emit_or_drop_exact [of verbose "'' (line ~'' @ show_nat n @ '')''" st]
          by simp_all
        then show ?thesis
          using IH ne blank cl by (simp add: pending_blocks_blank)
      qed
    next
      case tok: False
      then have "total_sentences ?st = total_sentences st"
        "valid_sentences ?st = valid_sentences st"
        "invalid_sentences ?st = invalid_sentences st"
        "current_sentence ?st = current_sentence st @ [?line]"
        using False by (simp_all add: process_line_def Let_def)
      then show ?thesis
        using IH tok cl by (simp add: pending_blocks_token)
    qed
  qed
qed

lemma counts_process_stream:
  "total_sentences (process_stream verbose input) = length (sentence_blocks input) \<and>
   valid_sentences (process_stream verbose input) = length (filter passes (sentence_blocks input)) \<and>
   invalid_sentences (process_stream verbose input) =
     length (filter (\<lambda>b. \<not> passes b) (sentence_blocks input))"
  using counts_run [of verbose 1 "readlines input" init_state]
  by (simp add: process_stream_def sentence_blocks_pending init_state_def)

lemma eval_blocks:
  "sentence_blocks no_final_blank = [scenario_A]"
  "sentence_blocks scenario_E = [scenario_A, scenario_B]"
  "passes scenario_A" "\<not> passes scenario_B"
  by code_simp+

text \<open>
  C7. For every input file, \<open>clean_conllu_file\<close> returns, and its counters are these:
  \<open>total\<close> is the number of sentence blocks of the file, \<open>valid\<close> the number of blocks
  that pass validation, \<open>invalid\<close> the number of blocks that fail. So each block adds one
  to \<open>total\<close> and one to exactly one of \<open>valid\<close> and \<open>invalid\<close>, the last block also
  when no blank line follows it, and \<open>total = valid + invalid\<close>.
\<close>

theorem counters_consistent:
  "\<exists>r. clean_conllu_file fl input verbose = Inr r \<and>
     total_sentences r = length (sentence_blocks input) \<and>
     valid_sentences r = length (filter passes (sentence_blocks input)) \<and>
     invalid_sentences r = length (filter (\<lambda>b. \<not> passes b) (sentence_blocks input)) \<and>
     total_sentences r = valid_sentences r + invalid_sentences r"
proof -
  have "length (sentence_blocks input) =
        length (filter passes (sentence_blocks input)) +
        length (filter (\<lambda>b. \<not> passes b) (sentence_blocks input))"
    by (rule sum_length_filter_compl [symmetric])
  then show ?thesis
    using counts_process_stream [of verbose input]
    by (simp add: clean_conllu_file_value)
qed

theorem counters_consistent_witness:
  "\<exists>r. clean_conllu_file pair_ops no_final_blank True = Inr r \<and>
     sentence_blocks no_final_blank = [scenario_A] \<and>
     total_sentences r = 1 \<and> valid_sentences r = 1 \<and> invalid_sentences r = 0"
  using counters_consistent [of pair_ops no_final_blank True] eval_blocks
  by auto

end
